theory Spec2Isabelle
  imports Main "HOL-Library.AList" "HOL-Library.Char_ord" "HOL-Library.List_Lexorder"
    "HOL-Library.Multiset"
begin

section \<open>The namespace tree of \<open>file_system.py\<close>\<close>

text \<open>
  The program keeps a tree of \<open>TrieNode\<close> objects that point at each other in both
  directions (\<open>children\<close> downwards, \<open>parent\<close> upwards) and a cursor \<open>current\<close> that
  aliases one of them. The objects therefore live in an explicit store: a list of nodes,
  an object reference being an index into it. \<open>TrieNode(...)\<close> appends to the store,
  nothing is ever freed (a node that \<open>rm\<close> unlinks stays in the store, as the Python
  object stays alive while the cursor or a \<open>parent\<close> field still refers to it).

  A \<open>dict\<close> is an association list in insertion order: \<open>d[k] = v\<close> is \<open>AList.update\<close>,
  \<open>del d[k]\<close> is \<open>AList.delete\<close>, \<open>k in d\<close> and \<open>d[k]\<close> are \<open>map_of\<close>.
  Strings are compared as Python compares them, character by character, a proper prefix
  first. A \<open>char\<close> is a byte; on UTF-8 text the order of the bytes is the order of
  the code points, and the byte of the slash occurs in no longer sequence.
\<close>

subsection \<open>Data\<close>

type_synonym ref = nat

record TrieNode =
  name :: string
  is_file :: bool
  children :: "(string \<times> ref) list"
  parent :: "ref option"
  content :: string

definition TrieNode_init :: "string \<Rightarrow> bool \<Rightarrow> ref option \<Rightarrow> TrieNode" where
  "TrieNode_init nm isf par =
     \<lparr>name = nm, is_file = isf, children = [], parent = par, content = ''''\<rparr>"

record FileSystem =
  heap :: "TrieNode list"
  root :: ref
  current :: ref

definition FileSystem_init :: FileSystem where
  "FileSystem_init = \<lparr>heap = [TrieNode_init '''' False None], root = 0, current = 0\<rparr>"

datatype py_error = IndexError

subsection \<open>Store primitives\<close>

text \<open>\<open>node.children[k] = c\<close>, \<open>del node.children[k]\<close> and \<open>node.content = t\<close>.\<close>

definition set_child :: "TrieNode list \<Rightarrow> ref \<Rightarrow> string \<Rightarrow> ref \<Rightarrow> TrieNode list" where
  "set_child h a k c = h[a := (h ! a)\<lparr>children := AList.update k c (children (h ! a))\<rparr>]"

definition del_child :: "TrieNode list \<Rightarrow> ref \<Rightarrow> string \<Rightarrow> TrieNode list" where
  "del_child h a k = h[a := (h ! a)\<lparr>children := AList.delete k (children (h ! a))\<rparr>]"

definition set_content :: "TrieNode list \<Rightarrow> ref \<Rightarrow> string \<Rightarrow> TrieNode list" where
  "set_content h a t = h[a := (h ! a)\<lparr>content := t\<rparr>]"

subsection \<open>Strings\<close>

text \<open>\<open>s.split('/')\<close>: the pieces between the slashes, empty pieces included.\<close>

fun split_from :: "string \<Rightarrow> string \<Rightarrow> string list" where
  "split_from w [] = [w]"
| "split_from w (c # cs) =
     (if c = CHR ''/'' then w # split_from [] cs else split_from (w @ [c]) cs)"

definition split_slash :: "string \<Rightarrow> string list" where
  "split_slash s = split_from [] s"

text \<open>\<open>sep.join(xs)\<close>.\<close>

fun join :: "string \<Rightarrow> string list \<Rightarrow> string" where
  "join sep [] = []"
| "join sep [x] = x"
| "join sep (x # y # ys) = x @ sep @ join sep (y # ys)"

subsection \<open>Path resolution\<close>

text \<open>
  \<open>_parse_path\<close>. The source also assigns a local \<open>current_node\<close> (the root for a path
  with a leading slash, the cursor otherwise) and never reads it: only the filtered
  component list is returned.
\<close>

definition parse_path :: "string \<Rightarrow> string list" where
  "parse_path path =
     (if path = [] then []
      else filter (\<lambda>c. c \<noteq> [])
             (if hd path = CHR ''/'' then split_slash (tl path) else split_slash path))"

text \<open>
  The loop of \<open>_traverse\<close>. \<open>components\<close> is the whole list (the source compares each
  component with \<open>components[-1]\<close>), the last argument is what is left to walk.
\<close>

fun traverse_loop :: "TrieNode list \<Rightarrow> string list \<Rightarrow> ref \<Rightarrow> string list \<Rightarrow> ref option" where
  "traverse_loop h components current_node [] = Some current_node"
| "traverse_loop h components current_node (component # rest) =
     (if component = ''..'' then
        (case parent (h ! current_node) of
           Some p \<Rightarrow> traverse_loop h components p rest
         | None \<Rightarrow> traverse_loop h components current_node rest)
      else if component = ''.'' then traverse_loop h components current_node rest
      else
        (case map_of (children (h ! current_node)) component of
           Some c \<Rightarrow>
             if is_file (h ! c) \<and> component \<noteq> last components then None
             else traverse_loop h components c rest
         | None \<Rightarrow> None))"

definition anchor :: "FileSystem \<Rightarrow> string list \<Rightarrow> ref" where
  "anchor s components =
     (if components \<noteq> [] \<and> hd components = [] then root s else current s)"

definition traverse :: "FileSystem \<Rightarrow> string list \<Rightarrow> ref option" where
  "traverse s components =
     traverse_loop (heap s) components (anchor s components) components"

text \<open>
  The loop of \<open>_create_directory\<close>: a missing component is allocated as a directory
  and linked under the node the walk stands on.
\<close>

fun create_loop :: "TrieNode list \<Rightarrow> ref \<Rightarrow> string list \<Rightarrow> TrieNode list" where
  "create_loop h current_node [] = h"
| "create_loop h current_node (component # rest) =
     (if component = ''..'' then
        (case parent (h ! current_node) of
           Some p \<Rightarrow> create_loop h p rest
         | None \<Rightarrow> create_loop h current_node rest)
      else if component = ''.'' then create_loop h current_node rest
      else
        (case map_of (children (h ! current_node)) component of
           None \<Rightarrow>
             (let new_node = length h;
                  h1 = h @ [TrieNode_init component False (Some current_node)];
                  h2 = set_child h1 current_node component new_node
              in create_loop h2 new_node rest)
         | Some c \<Rightarrow> create_loop h c rest))"

text \<open>\<open>components[0]\<close> of an empty list raises \<open>IndexError\<close>, before anything is changed.\<close>

definition create_directory :: "FileSystem \<Rightarrow> string list \<Rightarrow> py_error + FileSystem" where
  "create_directory s components =
     (case components of
        [] \<Rightarrow> Inl IndexError
      | c0 # _ \<Rightarrow>
          Inr (s\<lparr>heap := create_loop (heap s) (if c0 = [] then root s else current s)
                          components\<rparr>))"

subsection \<open>The operations\<close>

text \<open>
  Each operation returns what it prints (\<open>None\<close> when it prints nothing) and, when it
  can change the tree or the cursor, the new state.
\<close>

definition mkdir :: "FileSystem \<Rightarrow> string \<Rightarrow> py_error + FileSystem" where
  "mkdir s path =
     (let components = parse_path path in
      case traverse s components of
        None \<Rightarrow> create_directory s components
      | Some node \<Rightarrow> Inr s)"

definition touch :: "FileSystem \<Rightarrow> string \<Rightarrow> string \<times> FileSystem" where
  "touch s path =
     (let components = parse_path path in
      if components = [] then (''Invalid file name'', s)
      else
        let dir_components = butlast components;
            file_name = last components
        in case traverse s dir_components of
             Some dir_node \<Rightarrow>
               if \<not> is_file (heap s ! dir_node) then
                 (if map_of (children (heap s ! dir_node)) file_name = None then
                    (let new_node = length (heap s);
                         h1 = heap s @ [TrieNode_init file_name True (Some dir_node)];
                         h2 = set_child h1 dir_node file_name new_node
                     in (''File '' @ [CHR 0x27] @ file_name @ [CHR 0x27] @ '' created'',
                         s\<lparr>heap := h2\<rparr>))
                  else
                    (''File '' @ [CHR 0x27] @ file_name @ [CHR 0x27] @ '' already exists'', s))
               else (''Invalid path: '' @ join ''/'' components, s)
           | None \<Rightarrow> (''Invalid path: '' @ join ''/'' components, s))"

text \<open>The list comprehension of \<open>ls\<close>: the display string of every child, in dict order.\<close>

definition ls_contents :: "TrieNode list \<Rightarrow> ref \<Rightarrow> string list" where
  "ls_contents h target_node =
     map (\<lambda>(nm, node). if \<not> is_file (h ! node) then nm @ ''/'' else nm)
       (children (h ! target_node))"

definition ls :: "FileSystem \<Rightarrow> string \<Rightarrow> string" where
  "ls s path =
     (let components = parse_path path;
          target = (if components \<noteq> [] then traverse s components else Some (current s))
      in case target of
           None \<Rightarrow> ''Path not found: '' @ join ''/'' components
         | Some target_node \<Rightarrow>
             if is_file (heap s ! target_node) then name (heap s ! target_node)
             else
               (let contents = ls_contents (heap s) target_node;
                    text = join [CHR 0x0A] (sort contents)
                in if text = [] then ''Empty directory'' else text))"

definition cd :: "FileSystem \<Rightarrow> string \<Rightarrow> string option \<times> FileSystem" where
  "cd s path =
     (if path = ''/'' then (None, s\<lparr>current := root s\<rparr>)
      else
        let components = parse_path path in
        case traverse s components of
          Some target_node \<Rightarrow>
            if \<not> is_file (heap s ! target_node) then (None, s\<lparr>current := target_node\<rparr>)
            else (Some (''Directory not found: '' @ join ''/'' components), s)
        | None \<Rightarrow> (Some (''Directory not found: '' @ join ''/'' components), s))"

text \<open>
  The \<open>while node.parent\<close> loop of \<open>pwd\<close> follows parent references for as long as
  there is one; \<open>None\<close> stands for a loop that never ends.
\<close>

partial_function (option) pwd_loop :: "TrieNode list \<Rightarrow> ref \<Rightarrow> string list \<Rightarrow> string list option"
  where
  "pwd_loop h node path =
     (case parent (h ! node) of
        None \<Rightarrow> Some path
      | Some p \<Rightarrow> pwd_loop h p (path @ [name (h ! node)]))"

declare pwd_loop.simps [code]

definition pwd :: "FileSystem \<Rightarrow> string option" where
  "pwd s =
     (case pwd_loop (heap s) (current s) [] of
        None \<Rightarrow> None
      | Some path \<Rightarrow> Some (''/'' @ join ''/'' (rev path)))"

definition cat :: "FileSystem \<Rightarrow> string \<Rightarrow> string" where
  "cat s path =
     (let components = parse_path path in
      case traverse s components of
        Some file_node \<Rightarrow>
          if is_file (heap s ! file_node) then content (heap s ! file_node)
          else ''File not found: '' @ join ''/'' components
      | None \<Rightarrow> ''File not found: '' @ join ''/'' components)"

text \<open>The \<open>echo text > filepath\<close> branch of \<open>main\<close>, after the line has been split.\<close>

definition write_file :: "FileSystem \<Rightarrow> string \<Rightarrow> string \<Rightarrow> string \<times> FileSystem" where
  "write_file s filepath text =
     (let components = parse_path filepath in
      case traverse s components of
        Some file_node \<Rightarrow>
          if is_file (heap s ! file_node) then
            (''Written to '' @ filepath, s\<lparr>heap := set_content (heap s) file_node text\<rparr>)
          else (''File not found: '' @ filepath, s)
      | None \<Rightarrow> (''File not found: '' @ filepath, s))"

definition rm :: "FileSystem \<Rightarrow> string \<Rightarrow> string \<times> FileSystem" where
  "rm s path =
     (let components = parse_path path in
      if components = [] then (''Invalid path'', s)
      else
        case traverse s (butlast components) of
          Some node \<Rightarrow>
            if map_of (children (heap s ! node)) (last components) \<noteq> None then
              (''Removed: '' @ join ''/'' components,
               s\<lparr>heap := del_child (heap s) node (last components)\<rparr>)
            else (''Path not found: '' @ join ''/'' components, s)
        | None \<Rightarrow> (''Path not found: '' @ join ''/'' components, s))"

subsection \<open>Sessions\<close>

datatype command =
    Mkdir string | Touch string | Ls string | Cd string | Pwd
  | Cat string | Write string string | Rm string

text \<open>
  What a call can do: return (with what it printed and the state it left), raise, or
  never come back. In the engine the only statement that can raise is \<open>components[0]\<close>
  in \<open>_create_directory\<close> (every other index or dict access is guarded by a test
  just before it), and the only loop not bounded by a list is the one of \<open>pwd\<close>.
\<close>

datatype outcome = Returned "string option" FileSystem | Raised py_error | Diverged

fun exec :: "FileSystem \<Rightarrow> command \<Rightarrow> outcome" where
  "exec s (Mkdir p) = (case mkdir s p of Inl e \<Rightarrow> Raised e | Inr s' \<Rightarrow> Returned None s')"
| "exec s (Touch p) = (case touch s p of (out, s') \<Rightarrow> Returned (Some out) s')"
| "exec s (Ls p) = Returned (Some (ls s p)) s"
| "exec s (Cd p) = (case cd s p of (out, s') \<Rightarrow> Returned out s')"
| "exec s Pwd = (case pwd s of None \<Rightarrow> Diverged | Some out \<Rightarrow> Returned (Some out) s)"
| "exec s (Cat p) = Returned (Some (cat s p)) s"
| "exec s (Write p t) = (case write_file s p t of (out, s') \<Rightarrow> Returned (Some out) s')"
| "exec s (Rm p) = (case rm s p of (out, s') \<Rightarrow> Returned (Some out) s')"

text \<open>
  A session: the commands run one after the other, each on the state the one before
  left. The result is the list of what was printed and the final state, as long as
  every command returned.
\<close>

fun run :: "FileSystem \<Rightarrow> command list \<Rightarrow> (string option list \<times> FileSystem) option" where
  "run s [] = Some ([], s)"
| "run s (c # cs) =
     (case exec s c of
        Returned out s' \<Rightarrow>
          (case run s' cs of None \<Rightarrow> None | Some (outs, s'') \<Rightarrow> Some (out # outs, s''))
      | Raised e \<Rightarrow> None
      | Diverged \<Rightarrow> None)"


subsection \<open>What the spec says \<open>ls\<close> lists\<close>

text \<open>
  Follows the spec's words, not the source: the children sorted lexicographically by
  name, then a slash appended to the name of each directory.
\<close>

definition ls_by_name :: "TrieNode list \<Rightarrow> ref \<Rightarrow> string list" where
  "ls_by_name h target_node =
     map (\<lambda>(nm, node). if \<not> is_file (h ! node) then nm @ ''/'' else nm)
       (sort_key fst (children (h ! target_node)))"

subsection \<open>Invariants of the store\<close>

definition is_dot :: "string \<Rightarrow> bool" where
  "is_dot nm \<longleftrightarrow> nm = ''..'' \<or> nm = ''.''"

text \<open>
  Every parent reference points at an older node whose name is not a navigation
  component; every dict entry points into the store, at a node that carries the key
  as its name and the owner of the dict as its parent, and no key is empty.
\<close>

definition wf_heap :: "TrieNode list \<Rightarrow> bool" where
  "wf_heap h \<longleftrightarrow>
     (\<forall>a < length h.
        (\<forall>p. parent (h ! a) = Some p \<longrightarrow> p < a \<and> \<not> is_dot (name (h ! p))) \<and>
        (\<forall>k c. map_of (children (h ! a)) k = Some c \<longrightarrow>
                 c < length h \<and> name (h ! c) = k \<and> k \<noteq> [] \<and> parent (h ! c) = Some a))"

definition consistent :: "FileSystem \<Rightarrow> bool" where
  "consistent s \<longleftrightarrow>
     wf_heap (heap s) \<and> root s < length (heap s) \<and> current s < length (heap s) \<and>
     \<not> is_file (heap s ! root s) \<and> \<not> is_dot (name (heap s ! root s)) \<and>
     parent (heap s ! root s) = None \<and>
     \<not> is_file (heap s ! current s) \<and> \<not> is_dot (name (heap s ! current s))"

text \<open>\<open>ext h H\<close>: the store \<open>H\<close> has every node of \<open>h\<close>, with the same name, kind and
  parent and at least the same dict entries.\<close>

definition ext :: "TrieNode list \<Rightarrow> TrieNode list \<Rightarrow> bool" where
  "ext h H \<longleftrightarrow>
     length h \<le> length H \<and>
     (\<forall>x < length h.
        parent (H ! x) = parent (h ! x) \<and> name (H ! x) = name (h ! x) \<and>
        is_file (H ! x) = is_file (h ! x) \<and>
        (\<forall>k c. map_of (children (h ! x)) k = Some c \<longrightarrow>
                 map_of (children (H ! x)) k = Some c))"

text \<open>\<open>live h r a\<close>: node \<open>a\<close> is reached from \<open>r\<close> by following dict entries.\<close>

inductive live :: "TrieNode list \<Rightarrow> ref \<Rightarrow> ref \<Rightarrow> bool" for h :: "TrieNode list" and r :: ref where
  live_root: "live h r r"
| live_child: "live h r p \<Longrightarrow> map_of (children (h ! p)) k = Some c \<Longrightarrow> live h r c"

code_pred live .

text \<open>
  The node whose dict entry \<open>rm path\<close> deletes in state \<open>s\<close>: the child that
  \<open>components[-1]\<close> names in the node that \<open>components[:-1]\<close> resolves to. \<open>None\<close>
  when \<open>rm\<close> deletes nothing.
\<close>

definition unlinked_by_rm :: "FileSystem \<Rightarrow> string \<Rightarrow> ref option" where
  "unlinked_by_rm s path =
     (let components = parse_path path in
      if components = [] then None
      else
        case traverse s (butlast components) of
          Some node \<Rightarrow> map_of (children (heap s ! node)) (last components)
        | None \<Rightarrow> None)"

text \<open>
  A command spares the cursor unless it is an \<open>rm\<close> that unlinks a node from which the
  cursor is reached, that is, the node of the cursor or one of its ancestors. A session
  spares the cursor when each of its commands does, in the state it runs in.
\<close>

fun spares_cursor :: "FileSystem \<Rightarrow> command \<Rightarrow> bool" where
  "spares_cursor s (Rm p) =
     (case unlinked_by_rm s p of
        None \<Rightarrow> True
      | Some c \<Rightarrow> \<not> live (heap s) c (current s))"
| "spares_cursor s c = True"

fun cursor_spared :: "FileSystem \<Rightarrow> command list \<Rightarrow> bool" where
  "cursor_spared s [] = True"
| "cursor_spared s (c # cs) =
     (spares_cursor s c \<and>
      (case exec s c of
         Returned out s' \<Rightarrow> cursor_spared s' cs
       | Raised e \<Rightarrow> True
       | Diverged \<Rightarrow> True))"

subsection \<open>Writing down concrete stores\<close>

abbreviation Dir :: "string \<Rightarrow> (string \<times> ref) list \<Rightarrow> ref option \<Rightarrow> TrieNode" where
  "Dir nm kids par \<equiv>
     \<lparr>name = nm, is_file = False, children = kids, parent = par, content = ''''\<rparr>"

abbreviation File :: "string \<Rightarrow> (string \<times> ref) list \<Rightarrow> ref option \<Rightarrow> string \<Rightarrow> TrieNode" where
  "File nm kids par txt \<equiv>
     \<lparr>name = nm, is_file = True, children = kids, parent = par, content = txt\<rparr>"

abbreviation created :: "string \<Rightarrow> string option" where
  "created nm \<equiv> Some (''File '' @ [CHR 0x27] @ nm @ [CHR 0x27] @ '' created'')"

section \<open>Properties\<close>

subsection \<open>Store updates\<close>

lemma ext_refl: "ext h h"
  by (simp add: ext_def)

lemma ext_trans:
  assumes a: "ext h1 h2" and b: "ext h2 h3"
  shows "ext h1 h3"
proof -
  have len: "length h1 \<le> length h2" "length h2 \<le> length h3"
    using a b by (simp_all add: ext_def)
  have "parent (h3 ! x) = parent (h1 ! x) \<and> name (h3 ! x) = name (h1 ! x) \<and>
        is_file (h3 ! x) = is_file (h1 ! x) \<and>
        (\<forall>k c. map_of (children (h1 ! x)) k = Some c \<longrightarrow>
                 map_of (children (h3 ! x)) k = Some c)"
    if x: "x < length h1" for x
  proof -
    have x2: "x < length h2" using x len by simp
    show ?thesis using a b x x2 unfolding ext_def by simp
  qed
  then show ?thesis using len by (simp add: ext_def)
qed

lemma extD:
  "ext h H \<Longrightarrow> x < length h \<Longrightarrow>
     x < length H \<and> parent (H ! x) = parent (h ! x) \<and> name (H ! x) = name (h ! x) \<and>
     is_file (H ! x) = is_file (h ! x)"
  by (simp add: ext_def)

lemma ext_lookup:
  "ext h H \<Longrightarrow> x < length h \<Longrightarrow> map_of (children (h ! x)) k = Some c \<Longrightarrow>
     map_of (children (H ! x)) k = Some c"
  by (simp add: ext_def)

lemma wf_heapD_parent:
  "wf_heap h \<Longrightarrow> a < length h \<Longrightarrow> parent (h ! a) = Some p \<Longrightarrow>
     p < a \<and> p < length h \<and> \<not> is_dot (name (h ! p))"
  unfolding wf_heap_def by (meson less_trans)

lemma wf_heapD_child:
  "wf_heap h \<Longrightarrow> a < length h \<Longrightarrow> map_of (children (h ! a)) k = Some c \<Longrightarrow>
     c < length h \<and> name (h ! c) = k"
  unfolding wf_heap_def by blast

lemma wf_heapD_key:
  "wf_heap h \<Longrightarrow> a < length h \<Longrightarrow> map_of (children (h ! a)) k = Some c \<Longrightarrow> k \<noteq> []"
  unfolding wf_heap_def by blast

lemma wf_heapD_owner:
  "wf_heap h \<Longrightarrow> a < length h \<Longrightarrow> map_of (children (h ! a)) k = Some c \<Longrightarrow>
     parent (h ! c) = Some a"
  unfolding wf_heap_def by blast

lemma length_set_child [simp]: "length (set_child h a k c) = length h"
  by (simp add: set_child_def)

lemma length_del_child [simp]: "length (del_child h a k) = length h"
  by (simp add: del_child_def)

lemma length_set_content [simp]: "length (set_content h a t) = length h"
  by (simp add: set_content_def)

text \<open>Allocating a node and entering it in the dict of an existing one.\<close>

lemma nth_link:
  "a < length h \<Longrightarrow> x \<le> length h \<Longrightarrow>
     set_child (h @ [n]) a k (length h) ! x =
       (if x = a then (h ! a)\<lparr>children := AList.update k (length h) (children (h ! a))\<rparr>
        else if x = length h then n else h ! x)"
  by (auto simp: set_child_def nth_append nth_list_update)

lemma wf_link:
  assumes wf: "wf_heap h" and a: "a < length h" and nd: "\<not> is_dot (name (h ! a))"
    and k: "k \<noteq> []"
  shows "wf_heap (set_child (h @ [TrieNode_init k f (Some a)]) a k (length h))"
proof -
  let ?H = "set_child (h @ [TrieNode_init k f (Some a)]) a k (length h)"
  have par: "p < x \<and> \<not> is_dot (name (?H ! p))"
    if x: "x < length ?H" and eq: "parent (?H ! x) = Some p" for x p
  proof -
    have xl: "x \<le> length h" using x by simp
    have pa: "p < x \<and> p < length h \<and> \<not> is_dot (name (h ! p))"
      using eq a nd wf_heapD_parent[OF wf, of x p] xl
      by (auto simp: nth_link[OF a xl] TrieNode_init_def split: if_splits)
    then have "name (?H ! p) = name (h ! p)"
      using a by (simp add: nth_link)
    then show ?thesis using pa by simp
  qed
  have chi: "c < length ?H \<and> name (?H ! c) = k' \<and> k' \<noteq> [] \<and> parent (?H ! c) = Some x"
    if x: "x < length ?H" and eq: "map_of (children (?H ! x)) k' = Some c" for x k' c
  proof -
    have xl: "x \<le> length h" using x by simp
    have "(x = a \<and> k' = k \<and> c = length h) \<or>
          (x < length h \<and> map_of (children (h ! x)) k' = Some c)"
      using eq a xl
      by (auto simp: nth_link[OF a xl] TrieNode_init_def AList.update_conv' split: if_splits)
    then show ?thesis
    proof
      assume "x = a \<and> k' = k \<and> c = length h"
      then show ?thesis using a k by (simp add: nth_link TrieNode_init_def)
    next
      assume old: "x < length h \<and> map_of (children (h ! x)) k' = Some c"
      then have c: "c < length h \<and> name (h ! c) = k'"
        using wf_heapD_child[OF wf, of x k' c] by simp
      have "k' \<noteq> []" using old wf_heapD_key[OF wf, of x k' c] by simp
      moreover have "parent (h ! c) = Some x"
        using old wf_heapD_owner[OF wf, of x k' c] by simp
      ultimately show ?thesis using c a by (auto simp: nth_link)
    qed
  qed
  show ?thesis unfolding wf_heap_def using par chi by blast
qed

lemma ext_link:
  assumes a: "a < length h" and fresh: "map_of (children (h ! a)) k = None"
  shows "ext h (set_child (h @ [n]) a k (length h))"
  unfolding ext_def using a fresh
  by (auto simp: nth_link AList.update_conv')

lemma link_lookup:
  "a < length h \<Longrightarrow>
     map_of (children (set_child (h @ [n]) a k (length h) ! a)) k = Some (length h)"
  by (simp add: nth_link AList.update_conv')

lemma link_new:
  "a < length h \<Longrightarrow> set_child (h @ [n]) a k (length h) ! length h = n"
  by (simp add: nth_link)

text \<open>Removing a dict entry and replacing a content.\<close>

lemma nth_del_child:
  "x < length h \<Longrightarrow>
     del_child h a k ! x =
       (if x = a then (h ! a)\<lparr>children := AList.delete k (children (h ! a))\<rparr> else h ! x)"
  by (simp add: del_child_def nth_list_update)

lemma nth_set_content:
  "x < length h \<Longrightarrow>
     set_content h a t ! x = (if x = a then (h ! a)\<lparr>content := t\<rparr> else h ! x)"
  by (simp add: set_content_def nth_list_update)

lemma wf_del_child:
  assumes wf: "wf_heap h"
  shows "wf_heap (del_child h a k)"
proof -
  let ?H = "del_child h a k"
  have par: "p < x \<and> \<not> is_dot (name (?H ! p))"
    if x: "x < length ?H" and eq: "parent (?H ! x) = Some p" for x p
  proof -
    have xl: "x < length h" using x by simp
    have "parent (h ! x) = Some p"
      using eq xl by (auto simp: nth_del_child split: if_splits)
    then have pa: "p < x \<and> p < length h \<and> \<not> is_dot (name (h ! p))"
      using wf_heapD_parent[OF wf xl] by simp
    then have "name (?H ! p) = name (h ! p)" by (simp add: nth_del_child)
    then show ?thesis using pa by simp
  qed
  have chi: "c < length ?H \<and> name (?H ! c) = k' \<and> k' \<noteq> [] \<and> parent (?H ! c) = Some x"
    if x: "x < length ?H" and eq: "map_of (children (?H ! x)) k' = Some c" for x k' c
  proof -
    have xl: "x < length h" using x by simp
    have old: "map_of (children (h ! x)) k' = Some c"
      using eq xl by (auto simp: nth_del_child AList.delete_conv' split: if_splits)
    then have c: "c < length h \<and> name (h ! c) = k'"
      using wf_heapD_child[OF wf xl] by simp
    have "k' \<noteq> []" using old wf_heapD_key[OF wf xl] by simp
    moreover have "parent (h ! c) = Some x" using old wf_heapD_owner[OF wf xl] by simp
    ultimately show ?thesis using c by (auto simp: nth_del_child)
  qed
  show ?thesis unfolding wf_heap_def using par chi by blast
qed

lemma wf_set_content:
  assumes wf: "wf_heap h"
  shows "wf_heap (set_content h a t)"
proof -
  have same: "parent (set_content h a t ! x) = parent (h ! x) \<and>
              name (set_content h a t ! x) = name (h ! x) \<and>
              children (set_content h a t ! x) = children (h ! x)"
    if "x < length h" for x
    using that by (simp add: nth_set_content)
  have par: "p < x \<and> \<not> is_dot (name (set_content h a t ! p))"
    if x: "x < length h" and eq: "parent (set_content h a t ! x) = Some p" for x p
  proof -
    have pa: "p < x \<and> p < length h \<and> \<not> is_dot (name (h ! p))"
      using wf_heapD_parent[OF wf x, of p] eq same[OF x] by simp
    then show ?thesis using same[of p] by simp
  qed
  have chi: "c < length h \<and> name (set_content h a t ! c) = k' \<and> k' \<noteq> [] \<and>
             parent (set_content h a t ! c) = Some x"
    if x: "x < length h" and eq: "map_of (children (set_content h a t ! x)) k' = Some c"
    for x k' c
  proof -
    have old: "map_of (children (h ! x)) k' = Some c" using eq same[OF x] by simp
    then have c: "c < length h \<and> name (h ! c) = k'"
      using wf_heapD_child[OF wf x] by simp
    have "k' \<noteq> []" using old wf_heapD_key[OF wf x] by simp
    moreover have "parent (h ! c) = Some x" using old wf_heapD_owner[OF wf x] by simp
    ultimately show ?thesis using c same[of c] by simp
  qed
  show ?thesis unfolding wf_heap_def using par chi by simp
qed

lemma ext_set_content: "ext h (set_content h a t)"
  by (simp add: ext_def nth_set_content)

subsection \<open>The walks\<close>

lemma create_loop_wf_ext:
  "wf_heap h \<Longrightarrow> a < length h \<Longrightarrow> \<not> is_dot (name (h ! a)) \<Longrightarrow> [] \<notin> set cs \<Longrightarrow>
     wf_heap (create_loop h a cs) \<and> ext h (create_loop h a cs)"
proof (induction cs arbitrary: h a)
  case Nil
  then show ?case by (simp add: ext_refl)
next
  case (Cons c cs)
  have wf: "wf_heap h" and a: "a < length h" and na: "\<not> is_dot (name (h ! a))"
    and c: "c \<noteq> []" and cs: "[] \<notin> set cs"
    using Cons.prems by auto
  show ?case
  proof (cases "c = ''..''")
    case True
    show ?thesis
    proof (cases "parent (h ! a)")
      case None
      then show ?thesis using True Cons.IH[OF wf a na cs] by simp
    next
      case (Some p)
      have "p < length h \<and> \<not> is_dot (name (h ! p))"
        using wf_heapD_parent[OF wf a Some] by simp
      then show ?thesis using True Some Cons.IH[OF wf _ _ cs, of p] by simp
    qed
  next
    case notup: False
    show ?thesis
    proof (cases "c = ''.''")
      case True
      then show ?thesis using notup Cons.IH[OF wf a na cs] by simp
    next
      case notdot: False
      have nd: "\<not> is_dot c" using notup notdot by (simp add: is_dot_def)
      show ?thesis
      proof (cases "map_of (children (h ! a)) c")
        case (Some d)
        have "d < length h \<and> name (h ! d) = c"
          using wf_heapD_child[OF wf a Some] .
        then show ?thesis
          using notup notdot Some nd Cons.IH[OF wf _ _ cs, of d] by simp
      next
        case None
        let ?h2 = "set_child (h @ [TrieNode_init c False (Some a)]) a c (length h)"
        have wf2: "wf_heap ?h2" using wf_link[OF wf a na c] .
        have e2: "ext h ?h2" using ext_link[OF a None] .
        have new: "\<not> is_dot (name (?h2 ! length h))"
          using link_new[OF a] nd by (simp add: TrieNode_init_def)
        have "wf_heap (create_loop ?h2 (length h) cs) \<and> ext ?h2 (create_loop ?h2 (length h) cs)"
          using Cons.IH[OF wf2 _ new cs] by simp
        then show ?thesis
          using notup notdot None ext_trans[OF e2] by (simp add: Let_def)
      qed
    qed
  qed
qed

text \<open>Walking the same components again from the same node finds every node the first
  walk stood on and allocates nothing.\<close>

lemma create_loop_idem:
  "wf_heap h \<Longrightarrow> a < length h \<Longrightarrow> \<not> is_dot (name (h ! a)) \<Longrightarrow> [] \<notin> set cs \<Longrightarrow>
     create_loop (create_loop h a cs) a cs = create_loop h a cs"
proof (induction cs arbitrary: h a)
  case Nil
  then show ?case by simp
next
  case (Cons c cs)
  have wf: "wf_heap h" and a: "a < length h" and na: "\<not> is_dot (name (h ! a))"
    and c: "c \<noteq> []" and cs: "[] \<notin> set cs"
    using Cons.prems by auto
  show ?case
  proof (cases "c = ''..''")
    case True
    show ?thesis
    proof (cases "parent (h ! a)")
      case None
      let ?H = "create_loop h a cs"
      have "ext h ?H" using create_loop_wf_ext[OF wf a na cs] by simp
      then have "parent (?H ! a) = None" using None extD[of h ?H a] a by simp
      then show ?thesis using True None Cons.IH[OF wf a na cs] by simp
    next
      case (Some p)
      have p: "p < length h" "\<not> is_dot (name (h ! p))"
        using wf_heapD_parent[OF wf a Some] by simp_all
      let ?H = "create_loop h p cs"
      have "ext h ?H" using create_loop_wf_ext[OF wf p cs] by simp
      then have "parent (?H ! a) = Some p" using Some extD[of h ?H a] a by simp
      then show ?thesis using True Some Cons.IH[OF wf p cs] by simp
    qed
  next
    case notup: False
    show ?thesis
    proof (cases "c = ''.''")
      case True
      then show ?thesis using notup Cons.IH[OF wf a na cs] by simp
    next
      case notdot: False
      have nd: "\<not> is_dot c" using notup notdot by (simp add: is_dot_def)
      show ?thesis
      proof (cases "map_of (children (h ! a)) c")
        case (Some d)
        have d: "d < length h" "\<not> is_dot (name (h ! d))"
          using wf_heapD_child[OF wf a Some] nd by simp_all
        let ?H = "create_loop h d cs"
        have "ext h ?H" using create_loop_wf_ext[OF wf d cs] by simp
        then have "map_of (children (?H ! a)) c = Some d"
          using a Some by (rule ext_lookup)
        then show ?thesis
          using notup notdot Some Cons.IH[OF wf d cs] by simp
      next
        case None
        let ?h2 = "set_child (h @ [TrieNode_init c False (Some a)]) a c (length h)"
        let ?H = "create_loop ?h2 (length h) cs"
        have wf2: "wf_heap ?h2" using wf_link[OF wf a na c] .
        have new: "\<not> is_dot (name (?h2 ! length h))"
          using link_new[OF a] nd by (simp add: TrieNode_init_def)
        have l2: "length h < length ?h2" by simp
        have a2: "a < length ?h2" using a by simp
        have "ext ?h2 ?H" using create_loop_wf_ext[OF wf2 l2 new cs] by simp
        then have look: "map_of (children (?H ! a)) c = Some (length h)"
          using a2 link_lookup[OF a] by (rule ext_lookup)
        have "create_loop ?H (length h) cs = ?H"
          using Cons.IH[OF wf2 l2 new cs] .
        then show ?thesis
          using notup notdot None look by (simp add: Let_def)
      qed
    qed
  qed
qed

lemma traverse_loop_in_range:
  "wf_heap h \<Longrightarrow> a < length h \<Longrightarrow> \<not> is_dot (name (h ! a)) \<Longrightarrow>
     traverse_loop h comps a cs = Some t \<Longrightarrow> t < length h \<and> \<not> is_dot (name (h ! t))"
proof (induction cs arbitrary: a)
  case Nil
  then show ?case by simp
next
  case (Cons c cs)
  have wf: "wf_heap h" and a: "a < length h" using Cons.prems by auto
  show ?case
  proof (cases "c = ''..''")
    case True
    show ?thesis
    proof (cases "parent (h ! a)")
      case None
      then show ?thesis using True Cons by simp
    next
      case (Some p)
      have "p < length h \<and> \<not> is_dot (name (h ! p))"
        using wf_heapD_parent[OF wf a Some] by simp
      then show ?thesis using True Some Cons.IH[of p] Cons.prems by simp
    qed
  next
    case notup: False
    show ?thesis
    proof (cases "c = ''.''")
      case True
      then show ?thesis using notup Cons by simp
    next
      case notdot: False
      have nd: "\<not> is_dot c" using notup notdot by (simp add: is_dot_def)
      show ?thesis
      proof (cases "map_of (children (h ! a)) c")
        case None
        then show ?thesis using notup notdot Cons.prems by simp
      next
        case (Some d)
        have "d < length h \<and> name (h ! d) = c"
          using wf_heapD_child[OF wf a Some] .
        then show ?thesis
          using notup notdot Some nd Cons.IH[of d] Cons.prems
          by (simp split: if_splits)
      qed
    qed
  qed
qed

text \<open>The loop of \<open>pwd\<close> ends: every parent reference goes to an older node.\<close>

lemma pwd_loop_returns:
  "wf_heap h \<Longrightarrow> a < length h \<Longrightarrow> \<exists>r. pwd_loop h a path = Some r"
proof (induction a arbitrary: path rule: less_induct)
  case (less a)
  show ?case
  proof (cases "parent (h ! a)")
    case None
    then show ?thesis by (subst pwd_loop.simps) simp
  next
    case (Some p)
    have "p < a \<and> p < length h" using wf_heapD_parent[OF less.prems Some] by simp
    then have "\<exists>r. pwd_loop h p (path @ [name (h ! a)]) = Some r"
      using less.IH[of p] less.prems(1) by simp
    then show ?thesis using Some by (subst pwd_loop.simps) simp
  qed
qed

subsection \<open>Parsing\<close>

lemma parse_path_nonempty_components: "[] \<notin> set (parse_path p)"
  by (simp add: parse_path_def)

lemma anchor_parse_path: "anchor s (parse_path p) = current s"
proof (cases "parse_path p")
  case Nil
  then show ?thesis by (simp add: anchor_def)
next
  case (Cons c cs)
  then have "c \<noteq> []" using parse_path_nonempty_components[of p] by auto
  then show ?thesis using Cons by (simp add: anchor_def)
qed

lemma traverse_Nil: "traverse s [] = Some (current s)"
  by (simp add: traverse_def anchor_def)

subsection \<open>The invariant holds in every session\<close>

lemma consistent_init: "consistent FileSystem_init"
  by (simp add: consistent_def FileSystem_init_def TrieNode_init_def wf_heap_def is_dot_def)

lemma traverse_in_range:
  assumes "consistent s" and "traverse s cs = Some t"
  shows "t < length (heap s) \<and> \<not> is_dot (name (heap s ! t))"
proof -
  have "anchor s cs < length (heap s) \<and> \<not> is_dot (name (heap s ! anchor s cs))"
    using assms(1) by (simp add: consistent_def anchor_def)
  then show ?thesis
    using assms traverse_loop_in_range[of "heap s" "anchor s cs" cs cs t]
    by (simp add: consistent_def traverse_def)
qed

lemma consistent_ext:
  assumes "consistent s" and "wf_heap H" and "ext (heap s) H"
  shows "consistent (s\<lparr>heap := H\<rparr>)"
  using assms extD[of "heap s" H "root s"] extD[of "heap s" H "current s"]
  by (simp add: consistent_def)

lemma mkdir_cases:
  "mkdir s p = Inr s \<or>
   (traverse s (parse_path p) = None \<and>
    mkdir s p = Inr (s\<lparr>heap := create_loop (heap s) (current s) (parse_path p)\<rparr>))"
proof (cases "traverse s (parse_path p)")
  case (Some t)
  then show ?thesis by (simp add: mkdir_def)
next
  case None
  then have ne: "parse_path p \<noteq> []" using traverse_Nil[of s] by auto
  then obtain c cs where eq: "parse_path p = c # cs" by (cases "parse_path p") auto
  then have "c \<noteq> []" using parse_path_nonempty_components[of p] by auto
  then show ?thesis using None eq by (simp add: mkdir_def create_directory_def)
qed

lemma mkdir_consistent:
  assumes "consistent s" and "mkdir s p = Inr s'"
  shows "consistent s'"
proof -
  let ?H = "create_loop (heap s) (current s) (parse_path p)"
  have "wf_heap ?H \<and> ext (heap s) ?H"
    using assms(1) create_loop_wf_ext[of "heap s" "current s" "parse_path p"]
      parse_path_nonempty_components[of p]
    by (simp add: consistent_def)
  then have "consistent (s\<lparr>heap := ?H\<rparr>)" using consistent_ext[OF assms(1)] by simp
  then show ?thesis using mkdir_cases[of s p] assms by auto
qed

lemma touch_cases:
  "snd (touch s p) = s \<or>
   (\<exists>d. parse_path p \<noteq> [] \<and> traverse s (butlast (parse_path p)) = Some d \<and>
        \<not> is_file (heap s ! d) \<and>
        map_of (children (heap s ! d)) (last (parse_path p)) = None \<and>
        snd (touch s p) =
          s\<lparr>heap := set_child
                      (heap s @ [TrieNode_init (last (parse_path p)) True (Some d)])
                      d (last (parse_path p)) (length (heap s))\<rparr>)"
  by (auto simp: touch_def Let_def split: option.splits)

lemma touch_consistent:
  assumes "consistent s"
  shows "consistent (snd (touch s p))"
proof -
  have "consistent (s\<lparr>heap := set_child
                      (heap s @ [TrieNode_init (last (parse_path p)) True (Some d)])
                      d (last (parse_path p)) (length (heap s))\<rparr>)"
    if ne: "parse_path p \<noteq> []" and tr: "traverse s (butlast (parse_path p)) = Some d"
      and fresh: "map_of (children (heap s ! d)) (last (parse_path p)) = None" for d
  proof -
    have d: "d < length (heap s)" "\<not> is_dot (name (heap s ! d))"
      using traverse_in_range[OF assms tr] by simp_all
    have k: "last (parse_path p) \<noteq> []"
      using ne parse_path_nonempty_components[of p] last_in_set[of "parse_path p"] by metis
    have wf: "wf_heap (heap s)" using assms by (simp add: consistent_def)
    show ?thesis
      using consistent_ext[OF assms wf_link[OF wf d k] ext_link[OF d(1) fresh]] .
  qed
  then show ?thesis using touch_cases[of s p] assms by auto
qed

lemma cd_consistent:
  assumes "consistent s"
  shows "consistent (snd (cd s p))"
proof (cases "p = ''/''")
  case True
  then show ?thesis using assms by (simp add: cd_def consistent_def)
next
  case False
  show ?thesis
  proof (cases "traverse s (parse_path p)")
    case None
    then show ?thesis using False assms by (simp add: cd_def)
  next
    case (Some t)
    then show ?thesis
      using False assms traverse_in_range[OF assms Some]
      by (simp add: cd_def consistent_def)
  qed
qed

lemma write_file_cases:
  "snd (write_file s p t) = s \<or>
   (\<exists>f. traverse s (parse_path p) = Some f \<and> is_file (heap s ! f) \<and>
        snd (write_file s p t) = s\<lparr>heap := set_content (heap s) f t\<rparr>)"
  by (auto simp: write_file_def Let_def split: option.splits)

lemma write_file_consistent:
  assumes "consistent s"
  shows "consistent (snd (write_file s p t))"
proof -
  have "consistent (s\<lparr>heap := set_content (heap s) f t\<rparr>)" for f
    using consistent_ext[OF assms wf_set_content ext_set_content] assms
    by (simp add: consistent_def)
  then show ?thesis using write_file_cases[of s p t] assms by auto
qed

lemma rm_cases:
  "snd (rm s p) = s \<or>
   (\<exists>n. parse_path p \<noteq> [] \<and> traverse s (butlast (parse_path p)) = Some n \<and>
        snd (rm s p) = s\<lparr>heap := del_child (heap s) n (last (parse_path p))\<rparr>)"
  by (auto simp: rm_def Let_def split: option.splits)

lemma consistent_del_child:
  assumes "consistent s"
  shows "consistent (s\<lparr>heap := del_child (heap s) n k\<rparr>)"
  using assms wf_del_child[of "heap s" n k]
  by (auto simp: consistent_def nth_del_child)

lemma rm_consistent:
  assumes "consistent s"
  shows "consistent (snd (rm s p))"
  using rm_cases[of s p] assms consistent_del_child[OF assms] by auto

lemma exec_consistent:
  assumes "consistent s" and "exec s c = Returned out s'"
  shows "consistent s'"
proof (cases c)
  case (Mkdir p)
  then show ?thesis using assms mkdir_consistent[of s p] by (auto split: sum.splits)
next
  case (Touch p)
  then show ?thesis using assms touch_consistent[of s p] by (auto split: prod.splits)
next
  case (Ls p)
  then show ?thesis using assms by simp
next
  case (Cd p)
  then show ?thesis using assms cd_consistent[of s p] by (auto split: prod.splits)
next
  case Pwd
  then show ?thesis using assms by (auto split: option.splits)
next
  case (Cat p)
  then show ?thesis using assms by simp
next
  case (Write p t)
  then show ?thesis using assms write_file_consistent[of s p t] by (auto split: prod.splits)
next
  case (Rm p)
  then show ?thesis using assms rm_consistent[of s p] by (auto split: prod.splits)
qed

lemma run_consistent:
  "consistent s \<Longrightarrow> run s cs = Some (outs, s') \<Longrightarrow> consistent s'"
proof (induction cs arbitrary: s outs)
  case Nil
  then show ?case by simp
next
  case (Cons c cs)
  then show ?case
    by (auto split: outcome.splits option.splits dest: exec_consistent)
qed

lemma session_consistent:
  "run FileSystem_init cs = Some (outs, s) \<Longrightarrow> consistent s"
  using run_consistent[OF consistent_init] .

subsection \<open>Nodes linked from the root\<close>

lemma live_in_range:
  assumes "wf_heap h" and "r < length h" and "live h r a"
  shows "a < length h"
  using assms(3)
proof (induction rule: live.induct)
  case live_root
  then show ?case using assms(2) .
next
  case (live_child p k c)
  then show ?case using wf_heapD_child[OF assms(1)] by simp
qed

lemma live_ext:
  assumes "wf_heap h" and "r < length h" and "ext h H" and "live h r a"
  shows "live H r a"
  using assms(4)
proof (induction rule: live.induct)
  case live_root
  then show ?case by (rule live.live_root)
next
  case (live_child p k c)
  have "p < length h" using live_in_range[OF assms(1,2) live_child.hyps(1)] .
  then have "map_of (children (H ! p)) k = Some c"
    using ext_lookup[OF assms(3)] live_child.hyps(2) by simp
  with live_child.IH show ?case by (rule live.live_child)
qed

lemma live_parent:
  assumes wf: "wf_heap h" and r: "r < length h" and top: "parent (h ! r) = None"
    and lv: "live h r a" and par: "parent (h ! a) = Some p"
  shows "live h r p"
  using lv
proof (cases rule: live.cases)
  case live_root
  then show ?thesis using top par by simp
next
  case (live_child q k)
  have "q < length h" using live_in_range[OF wf r live_child(1)] .
  then have "parent (h ! a) = Some q" using wf_heapD_owner[OF wf _ live_child(2)] by simp
  then show ?thesis using par live_child(1) by simp
qed

text \<open>A resolution that starts on a linked node ends on a linked node.\<close>

lemma traverse_loop_live:
  assumes wf: "wf_heap h" and r: "r < length h" and top: "parent (h ! r) = None"
  shows "live h r a \<Longrightarrow> traverse_loop h comps a cs = Some t \<Longrightarrow> live h r t"
proof (induction cs arbitrary: a)
  case Nil
  then show ?case by simp
next
  case (Cons c cs)
  show ?case
  proof (cases "c = ''..''")
    case True
    show ?thesis
    proof (cases "parent (h ! a)")
      case None
      then show ?thesis using True Cons by simp
    next
      case (Some p)
      have "live h r p" using live_parent[OF wf r top Cons.prems(1) Some] .
      then show ?thesis using True Some Cons.IH[of p] Cons.prems(2) by simp
    qed
  next
    case notup: False
    show ?thesis
    proof (cases "c = ''.''")
      case True
      then show ?thesis using notup Cons by simp
    next
      case notdot: False
      show ?thesis
      proof (cases "map_of (children (h ! a)) c")
        case None
        then show ?thesis using notup notdot Cons.prems by simp
      next
        case (Some d)
        have "live h r d" using live.live_child[OF Cons.prems(1) Some] .
        then show ?thesis
          using notup notdot Some Cons.IH[of d] Cons.prems(2)
          by (simp split: if_splits)
      qed
    qed
  qed
qed

lemma del_child_fields:
  "name (del_child h n k ! x) = name (h ! x) \<and>
   is_file (del_child h n k ! x) = is_file (h ! x) \<and>
   parent (del_child h n k ! x) = parent (h ! x) \<and>
   map_of (children (del_child h n k ! x)) k' =
     (if x = n \<and> n < length h \<and> k' = k then None else map_of (children (h ! x)) k')"
proof (cases "x = n \<and> n < length h")
  case True
  then show ?thesis by (simp add: del_child_def AList.delete_conv')
next
  case False
  then have "del_child h n k ! x = h ! x"
    by (cases "x = n") (simp_all add: del_child_def list_update_beyond)
  then show ?thesis using False by auto
qed

text \<open>
  After a dict entry is deleted, a node that was linked from \<open>r\<close> still is, unless it
  was reached through the node the entry pointed at.
\<close>

lemma live_del_child:
  assumes e: "map_of (children (h ! n)) k = Some c" and lv: "live h r a"
  shows "live (del_child h n k) r a \<or> live h c a"
  using lv
proof (induction rule: live.induct)
  case live_root
  then show ?case by (simp add: live.live_root)
next
  case (live_child p k' d)
  show ?case
  proof (cases "live h c p")
    case True
    then show ?thesis using live.live_child[OF True live_child.hyps(2)] by simp
  next
    case False
    then have kept: "live (del_child h n k) r p" using live_child.IH by simp
    show ?thesis
    proof (cases "p = n \<and> k' = k")
      case True
      then have "d = c" using e live_child.hyps(2) by simp
      then show ?thesis by (simp add: live.live_root)
    next
      case False
      then have "map_of (children (del_child h n k ! p)) k' = Some d"
        using live_child.hyps(2) del_child_fields[of h n k p k'] by auto
      then show ?thesis using live.live_child[OF kept] by simp
    qed
  qed
qed

text \<open>
  And a node that was reached through the node the entry pointed at is no longer linked
  from the root: the deleted entry was the only one pointing at that node.
\<close>

lemma unlink_detaches:
  assumes wf: "wf_heap h" and r: "r < length h" and top: "parent (h ! r) = None"
    and n: "n < length h" and e: "map_of (children (h ! n)) k = Some c"
    and lv: "live h c a"
  shows "\<not> live (del_child h n k) r a"
proof -
  let ?H = "del_child h n k"
  have wfH: "wf_heap ?H" using wf_del_child[OF wf] .
  have rH: "r < length ?H" using r by simp
  have c: "c < length h" "name (h ! c) = k" "parent (h ! c) = Some n"
    using wf_heapD_child[OF wf n e] wf_heapD_owner[OF wf n e] by simp_all
  have entering: "p = q"
    if "live ?H r q" and "map_of (children (?H ! q)) k' = Some x" and "parent (h ! x) = Some p"
    for p q k' x
  proof -
    have "q < length ?H" using live_in_range[OF wfH rH that(1)] .
    then have "parent (?H ! x) = Some q" using wf_heapD_owner[OF wfH _ that(2)] by simp
    then show ?thesis using that(3) del_child_fields[of h n k x] by simp
  qed
  show ?thesis
    using lv
  proof (induction rule: live.induct)
    case live_root
    show ?case
    proof
      assume "live ?H r c"
      then show False
      proof (cases rule: live.cases)
        case live_root
        then show ?thesis using top c(3) by simp
      next
        case (live_child q k')
        have qn: "n = q" using entering[OF live_child(1,2) c(3)] .
        have "q < length ?H" using live_in_range[OF wfH rH live_child(1)] .
        then have "name (?H ! c) = k'" using wf_heapD_child[OF wfH _ live_child(2)] by simp
        then have "k' = k" using c(2) del_child_fields[of h n k c] by simp
        then show ?thesis
          using live_child(2) qn n del_child_fields[of h n k n k] by simp
      qed
    qed
  next
    case (live_child p k' d)
    have p: "p < length h" using live_in_range[OF wf c(1) live_child.hyps(1)] .
    have dp: "parent (h ! d) = Some p" using wf_heapD_owner[OF wf p live_child.hyps(2)] .
    show ?case
    proof
      assume "live ?H r d"
      then show False
      proof (cases rule: live.cases)
        case live_root
        then show ?thesis using top dp by simp
      next
        case (live_child q k'')
        have "p = q" using entering[OF live_child(1,2) dp] .
        then show ?thesis using live_child(1) \<open>\<not> live ?H r p\<close> by simp
      qed
    qed
  qed
qed

lemma rm_unlinks:
  "(unlinked_by_rm s p = None \<longrightarrow> snd (rm s p) = s) \<and>
   (\<forall>c. unlinked_by_rm s p = Some c \<longrightarrow>
      (\<exists>n. traverse s (butlast (parse_path p)) = Some n \<and>
           map_of (children (heap s ! n)) (last (parse_path p)) = Some c \<and>
           snd (rm s p) = s\<lparr>heap := del_child (heap s) n (last (parse_path p))\<rparr>))"
  by (auto simp: unlinked_by_rm_def rm_def Let_def split: option.splits)

lemma exec_keeps_cursor_live:
  assumes con: "consistent s" and lv: "live (heap s) (root s) (current s)"
    and ex: "exec s c = Returned out s'" and sp: "spares_cursor s c"
  shows "live (heap s') (root s') (current s')"
proof -
  have wf: "wf_heap (heap s)" and r: "root s < length (heap s)"
    and top: "parent (heap s ! root s) = None"
    using con by (simp_all add: consistent_def)
  have grow: "live H (root s) (current s)" if "ext (heap s) H" for H
    using live_ext[OF wf r that lv] .
  show ?thesis
  proof (cases c)
    case (Mkdir p)
    have "ext (heap s) (create_loop (heap s) (current s) (parse_path p))"
      using con create_loop_wf_ext[of "heap s" "current s" "parse_path p"]
        parse_path_nonempty_components[of p]
      by (simp add: consistent_def)
    then show ?thesis
      using Mkdir ex lv grow mkdir_cases[of s p] by (auto split: sum.splits)
  next
    case (Touch p)
    have "live (set_child (heap s @ [TrieNode_init (last (parse_path p)) True (Some d)])
                 d (last (parse_path p)) (length (heap s))) (root s) (current s)"
      if tr: "traverse s (butlast (parse_path p)) = Some d"
        and fresh: "map_of (children (heap s ! d)) (last (parse_path p)) = None" for d
    proof -
      have d: "d < length (heap s)" using traverse_in_range[OF con tr] by simp
      show ?thesis using grow[OF ext_link[OF d fresh]] .
    qed
    then show ?thesis
      using Touch ex lv touch_cases[of s p] by (auto split: prod.splits)
  next
    case (Ls p)
    then show ?thesis using ex lv by simp
  next
    case (Cd p)
    show ?thesis
    proof (cases "p = ''/''")
      case True
      then show ?thesis using Cd ex by (auto simp: cd_def live.live_root)
    next
      case False
      have "live (heap s) (root s) t" if "traverse s (parse_path p) = Some t" for t
      proof -
        have "live (heap s) (root s) (anchor s (parse_path p))"
          using lv by (simp add: anchor_def live.live_root)
        then show ?thesis
          using traverse_loop_live[OF wf r top] that by (simp add: traverse_def)
      qed
      then show ?thesis
        using Cd ex lv False by (auto simp: cd_def Let_def split: option.splits if_splits)
    qed
  next
    case Pwd
    then show ?thesis using ex lv by (auto split: option.splits)
  next
    case (Cat p)
    then show ?thesis using ex lv by simp
  next
    case (Write p t)
    have "live (set_content (heap s) f t) (root s) (current s)" for f
      using grow[OF ext_set_content] .
    then show ?thesis
      using Write ex lv write_file_cases[of s p t] by (auto split: prod.splits)
  next
    case (Rm p)
    show ?thesis
    proof (cases "unlinked_by_rm s p")
      case None
      then show ?thesis using Rm ex lv rm_unlinks[of s p] by (auto split: prod.splits)
    next
      case (Some d)
      then obtain n where
        e: "map_of (children (heap s ! n)) (last (parse_path p)) = Some d"
        and s': "snd (rm s p) = s\<lparr>heap := del_child (heap s) n (last (parse_path p))\<rparr>"
        using rm_unlinks[of s p] by blast
      have "\<not> live (heap s) d (current s)" using sp Rm Some by simp
      then have "live (del_child (heap s) n (last (parse_path p))) (root s) (current s)"
        using live_del_child[OF e lv] by simp
      then show ?thesis using Rm ex s' by (auto split: prod.splits)
    qed
  qed
qed

lemma run_keeps_cursor_live:
  "consistent s \<Longrightarrow> live (heap s) (root s) (current s) \<Longrightarrow> cursor_spared s cs \<Longrightarrow>
     run s cs = Some (outs, s') \<Longrightarrow> live (heap s') (root s') (current s')"
proof (induction cs arbitrary: s outs)
  case Nil
  then show ?case by simp
next
  case (Cons c cs)
  from Cons.prems(4) obtain out s1 outs1 where
    ex: "exec s c = Returned out s1" and rest: "run s1 cs = Some (outs1, s')"
    by (auto split: outcome.splits option.splits)
  have sp: "spares_cursor s c" and sps: "cursor_spared s1 cs"
    using Cons.prems(3) ex by simp_all
  show ?case
    using Cons.IH[OF exec_consistent[OF Cons.prems(1) ex]
        exec_keeps_cursor_live[OF Cons.prems(1,2) ex sp] sps rest] .
qed

section \<open>The claims\<close>

subsection \<open>Anchoring of absolute paths\<close>

text \<open>
  C1. A path with a leading slash should be resolved from the root, any other path from
  the cursor. The parser drops every empty component, so the test for an empty first
  component in \<open>_traverse\<close> and \<open>_create_directory\<close> never succeeds: every path is
  resolved from the cursor. After \<open>mkdir a\<close> and \<open>cd a\<close>, \<open>ls /a\<close> finds nothing and
  \<open>mkdir /b\<close> creates \<open>b\<close> inside \<open>a\<close>.
\<close>

theorem absolute_path_resolved_from_cursor:
  "anchor s (parse_path p) = current s \<and>
   map_option fst
     (run FileSystem_init
        [Mkdir ''a'', Cd ''a'', Ls ''/a'', Mkdir ''/b'', Cd ''/'', Ls '''', Ls ''a'']) =
     Some [None, None, Some ''Path not found: a'', None, None, Some ''a/'', Some ''b/'']"
proof -
  have "map_option fst
     (run FileSystem_init
        [Mkdir ''a'', Cd ''a'', Ls ''/a'', Mkdir ''/b'', Cd ''/'', Ls '''', Ls ''a'']) =
     Some [None, None, Some ''Path not found: a'', None, None, Some ''a/'', Some ''b/'']"
    by code_simp
  then show ?thesis using anchor_parse_path[of s p] by simp
qed

subsection \<open>Files and children\<close>

text \<open>
  C2. A file should never have children. \<open>_create_directory\<close> descends into an existing
  child without looking at its kind: after \<open>touch f\<close>, \<open>mkdir f/b\<close> enters the
  directory \<open>b\<close> in the dict of the file \<open>f\<close>.
\<close>

theorem file_gets_child:
  "run FileSystem_init [Touch ''f'', Mkdir ''f/b''] =
     Some ([created ''f'', None],
           \<lparr>heap = [Dir '''' [(''f'', 1)] None,
                    File ''f'' [(''b'', 2)] (Some 0) '''',
                    Dir ''b'' [] (Some 1)],
            root = 0, current = 0\<rparr>)"
  by code_simp

text \<open>
  C3. With a file \<open>a/f\<close> in place, \<open>mkdir a/f/b\<close> should fail and change nothing. It
  prints nothing, raises nothing and adds the node \<open>b\<close> below the file.
\<close>

theorem mkdir_through_file_changes_tree:
  "run FileSystem_init [Mkdir ''a'', Touch ''a/f''] =
     Some ([None, created ''f''],
           \<lparr>heap = [Dir '''' [(''a'', 1)] None,
                    Dir ''a'' [(''f'', 2)] (Some 0),
                    File ''f'' [] (Some 1) ''''],
            root = 0, current = 0\<rparr>) \<and>
   exec \<lparr>heap = [Dir '''' [(''a'', 1)] None,
                 Dir ''a'' [(''f'', 2)] (Some 0),
                 File ''f'' [] (Some 1) ''''],
         root = 0, current = 0\<rparr> (Mkdir ''a/f/b'') =
     Returned None
       \<lparr>heap = [Dir '''' [(''a'', 1)] None,
                Dir ''a'' [(''f'', 2)] (Some 0),
                File ''f'' [(''b'', 3)] (Some 1) '''',
                Dir ''b'' [] (Some 2)],
        root = 0, current = 0\<rparr>"
  by code_simp

subsection \<open>The file guard of the traversal\<close>

text \<open>
  C4. Resolution should fail when it enters a file anywhere but at the last position.
  The guard compares the component with the last component as strings, not by
  position: \<open>f/../f\<close> enters the file \<open>f\<close> at the first position, leaves it through
  \<open>..\<close> and returns it.
\<close>

theorem traverse_passes_through_file:
  "run FileSystem_init [Touch ''f''] =
     Some ([created ''f''],
           \<lparr>heap = [Dir '''' [(''f'', 1)] None, File ''f'' [] (Some 0) ''''],
            root = 0, current = 0\<rparr>) \<and>
   parse_path ''f/../f'' = [''f'', ''..'', ''f''] \<and>
   traverse \<lparr>heap = [Dir '''' [(''f'', 1)] None, File ''f'' [] (Some 0) ''''],
             root = 0, current = 0\<rparr> [''f'', ''..'', ''f''] = Some 1"
  by code_simp

subsection \<open>Idempotence of mkdir\<close>

text \<open>
  C5. In every state a session can reach and for every path, \<open>mkdir\<close> prints nothing
  and raises nothing, and a second \<open>mkdir\<close> of the same path leaves the state (store
  and cursor) exactly as the first one left it.
\<close>

theorem mkdir_idempotent:
  assumes "run FileSystem_init cs = Some (outs, s)"
  shows "\<exists>s1. exec s (Mkdir p) = Returned None s1 \<and> exec s1 (Mkdir p) = Returned None s1"
proof -
  have con: "consistent s" using session_consistent[OF assms] .
  let ?cs = "parse_path p"
  let ?H = "create_loop (heap s) (current s) ?cs"
  show ?thesis
  proof (cases "mkdir s p = Inr s")
    case True
    then show ?thesis by auto
  next
    case False
    then have first: "mkdir s p = Inr (s\<lparr>heap := ?H\<rparr>)"
      using mkdir_cases[of s p] by auto
    have "create_loop ?H (current s) ?cs = ?H"
      using con create_loop_idem[of "heap s" "current s" ?cs]
        parse_path_nonempty_components[of p]
      by (simp add: consistent_def)
    then have "mkdir (s\<lparr>heap := ?H\<rparr>) p = Inr (s\<lparr>heap := ?H\<rparr>)"
      using mkdir_cases[of "s\<lparr>heap := ?H\<rparr>" p] by auto
    then show ?thesis using first by auto
  qed
qed

theorem mkdir_idempotent_witness:
  "run FileSystem_init [Mkdir ''a'', Cd ''a''] =
     Some ([None, None],
           \<lparr>heap = [Dir '''' [(''a'', 1)] None, Dir ''a'' [] (Some 0)],
            root = 0, current = 1\<rparr>) \<and>
   exec \<lparr>heap = [Dir '''' [(''a'', 1)] None, Dir ''a'' [] (Some 0)],
         root = 0, current = 1\<rparr> (Mkdir ''b/../c'') =
     Returned None
       \<lparr>heap = [Dir '''' [(''a'', 1)] None,
                Dir ''a'' [(''b'', 2), (''c'', 3)] (Some 0),
                Dir ''b'' [] (Some 1),
                Dir ''c'' [] (Some 1)],
        root = 0, current = 1\<rparr> \<and>
   exec \<lparr>heap = [Dir '''' [(''a'', 1)] None,
                 Dir ''a'' [(''b'', 2), (''c'', 3)] (Some 0),
                 Dir ''b'' [] (Some 1),
                 Dir ''c'' [] (Some 1)],
         root = 0, current = 1\<rparr> (Mkdir ''b/../c'') =
     Returned None
       \<lparr>heap = [Dir '''' [(''a'', 1)] None,
                Dir ''a'' [(''b'', 2), (''c'', 3)] (Some 0),
                Dir ''b'' [] (Some 1),
                Dir ''c'' [] (Some 1)],
        root = 0, current = 1\<rparr>"
proof -
  let ?S = "\<lparr>heap = [Dir '''' [(''a'', 1)] None, Dir ''a'' [] (Some 0)],
            root = 0, current = 1\<rparr>"
  have r: "run FileSystem_init [Mkdir ''a'', Cd ''a''] = Some ([None, None], ?S)"
    by code_simp
  have first: "exec ?S (Mkdir ''b/../c'') =
     Returned None
       \<lparr>heap = [Dir '''' [(''a'', 1)] None,
                Dir ''a'' [(''b'', 2), (''c'', 3)] (Some 0),
                Dir ''b'' [] (Some 1),
                Dir ''c'' [] (Some 1)],
        root = 0, current = 1\<rparr>"
    by code_simp
  from mkdir_idempotent[OF r, of "''b/../c''"] obtain s1 where
    "exec ?S (Mkdir ''b/../c'') = Returned None s1"
    "exec s1 (Mkdir ''b/../c'') = Returned None s1"
    by blast
  then show ?thesis using r first by simp
qed

subsection \<open>Every operation returns\<close>

text \<open>
  C8. In every state a session can reach, each of the eight operations returns: none
  raises, and the loop of \<open>pwd\<close> ends. \<open>mkdir\<close> calls the create walk only when the
  traversal found nothing, which never happens for an empty component list, so the
  \<open>IndexError\<close> of \<open>components[0]\<close> cannot occur.
\<close>

theorem operations_return:
  assumes "run FileSystem_init cs = Some (outs, s)"
  shows "(\<exists>out s'. exec s c = Returned out s') \<and>
         (traverse s (parse_path p) = None \<longrightarrow> parse_path p \<noteq> [])"
proof -
  have con: "consistent s" using session_consistent[OF assms] .
  have "\<exists>out s'. exec s c = Returned out s'"
  proof (cases c)
    case (Mkdir q)
    then show ?thesis using mkdir_cases[of s q] by auto
  next
    case Pwd
    obtain r where "pwd_loop (heap s) (current s) [] = Some r"
      using con pwd_loop_returns[of "heap s" "current s" "[]"]
      by (auto simp: consistent_def)
    then show ?thesis using Pwd by (simp add: pwd_def)
  qed (auto split: prod.splits)
  moreover have "traverse s (parse_path p) = None \<longrightarrow> parse_path p \<noteq> []"
    using traverse_Nil[of s] by auto
  ultimately show ?thesis by simp
qed

theorem operations_return_witness:
  "run FileSystem_init [Mkdir ''a'', Cd ''a'', Rm ''../a''] =
     Some ([None, None, Some ''Removed: ../a''],
           \<lparr>heap = [Dir '''' [] None, Dir ''a'' [] (Some 0)], root = 0, current = 1\<rparr>) \<and>
   (\<exists>out s'. exec \<lparr>heap = [Dir '''' [] None, Dir ''a'' [] (Some 0)], root = 0, current = 1\<rparr>
               Pwd = Returned out s') \<and>
   traverse \<lparr>heap = [Dir '''' [] None, Dir ''a'' [] (Some 0)], root = 0, current = 1\<rparr>
     (parse_path ''/a'') = None \<and>
   parse_path ''/a'' \<noteq> []"
proof -
  let ?S = "\<lparr>heap = [Dir '''' [] None, Dir ''a'' [] (Some 0)], root = 0, current = 1\<rparr>"
  have r: "run FileSystem_init [Mkdir ''a'', Cd ''a'', Rm ''../a''] =
     Some ([None, None, Some ''Removed: ../a''], ?S)"
    by code_simp
  have t: "traverse ?S (parse_path ''/a'') = None"
    by code_simp
  show ?thesis using r t operations_return[OF r, of Pwd "''/a''"] by simp
qed

subsection \<open>The cursor\<close>

lemma live_from_leaf: "live h r a \<Longrightarrow> children (h ! r) = [] \<Longrightarrow> a = r"
  by (induction rule: live.induct) auto

text \<open>
  C6, as the code has it. After every session the cursor refers to a node that is not a
  file. That node is linked from the root through dict entries whenever it was at some
  earlier point \<open>s1\<close> of the session (the start is such a point, with \<open>cs1\<close> empty) and
  no \<open>rm\<close> run since then has unlinked the node of the cursor or one of its ancestors;
  an \<open>rm\<close> that fails, or unlinks any other node, does no harm. An \<open>rm\<close> that does
  unlink the node of the cursor or one of its ancestors leaves the cursor on a node that
  is no longer linked from the root, and \<open>cd /\<close> puts it back on a linked node.
\<close>

theorem cursor_is_directory_and_linked_unless_unlinked:
  assumes "run FileSystem_init cs1 = Some (outs1, s1)" and "run s1 cs2 = Some (outs2, s)"
  shows "\<not> is_file (heap s ! current s) \<and>
         (live (heap s1) (root s1) (current s1) \<and> cursor_spared s1 cs2 \<longrightarrow>
            live (heap s) (root s) (current s)) \<and>
         (unlinked_by_rm s p = Some c \<and> live (heap s) c (current s) \<and>
          exec s (Rm p) = Returned out s' \<longrightarrow>
            \<not> live (heap s') (root s') (current s')) \<and>
         exec s (Cd ''/'') = Returned None (s\<lparr>current := root s\<rparr>) \<and>
         live (heap s) (root s) (root s)"
proof -
  have reset: "exec s (Cd ''/'') = Returned None (s\<lparr>current := root s\<rparr>)"
    by (simp add: cd_def)
  have con1: "consistent s1" using session_consistent[OF assms(1)] .
  have con: "consistent s" using run_consistent[OF con1 assms(2)] .
  have wf: "wf_heap (heap s)" and r: "root s < length (heap s)"
    and top: "parent (heap s ! root s) = None"
    using con by (simp_all add: consistent_def)
  have kept: "live (heap s) (root s) (current s)"
    if "live (heap s1) (root s1) (current s1)" and "cursor_spared s1 cs2"
    using run_keeps_cursor_live[OF con1 that assms(2)] .
  have lost: "\<not> live (heap s') (root s') (current s')"
    if u: "unlinked_by_rm s p = Some c" and below: "live (heap s) c (current s)"
      and ex: "exec s (Rm p) = Returned out s'"
  proof -
    obtain n where tr: "traverse s (butlast (parse_path p)) = Some n"
      and e: "map_of (children (heap s ! n)) (last (parse_path p)) = Some c"
      and s': "snd (rm s p) = s\<lparr>heap := del_child (heap s) n (last (parse_path p))\<rparr>"
      using rm_unlinks[of s p] u by blast
    have n: "n < length (heap s)" using traverse_in_range[OF con tr] by simp
    have "\<not> live (del_child (heap s) n (last (parse_path p))) (root s) (current s)"
      using unlink_detaches[OF wf r top n e below] .
    then show ?thesis using ex s' by (auto split: prod.splits)
  qed
  show ?thesis using con kept lost reset by (simp add: consistent_def live.live_root)
qed

theorem cursor_is_directory_and_linked_unless_unlinked_witness:
  "run FileSystem_init [Mkdir ''a'', Cd ''a'', Rm ''../a'', Cd ''/''] =
     Some ([None, None, Some ''Removed: ../a'', None],
           \<lparr>heap = [Dir '''' [] None, Dir ''a'' [] (Some 0)], root = 0, current = 0\<rparr>) \<and>
   run \<lparr>heap = [Dir '''' [] None, Dir ''a'' [] (Some 0)], root = 0, current = 0\<rparr>
       [Mkdir ''b/c'', Touch ''f'', Rm ''f'', Cd ''b/c''] =
     Some ([None, created ''f'', Some ''Removed: f'', None],
           \<lparr>heap = [Dir '''' [(''b'', 2)] None,
                    Dir ''a'' [] (Some 0),
                    Dir ''b'' [(''c'', 3)] (Some 0),
                    Dir ''c'' [] (Some 2),
                    File ''f'' [] (Some 0) ''''],
            root = 0, current = 3\<rparr>) \<and>
   live [Dir '''' [] None, Dir ''a'' [] (Some 0)] 0 0 \<and>
   cursor_spared \<lparr>heap = [Dir '''' [] None, Dir ''a'' [] (Some 0)], root = 0, current = 0\<rparr>
     [Mkdir ''b/c'', Touch ''f'', Rm ''f'', Cd ''b/c''] \<and>
   \<not> is_file ([Dir '''' [(''b'', 2)] None,
               Dir ''a'' [] (Some 0),
               Dir ''b'' [(''c'', 3)] (Some 0),
               Dir ''c'' [] (Some 2),
               File ''f'' [] (Some 0) ''''] ! 3) \<and>
   live [Dir '''' [(''b'', 2)] None,
         Dir ''a'' [] (Some 0),
         Dir ''b'' [(''c'', 3)] (Some 0),
         Dir ''c'' [] (Some 2),
         File ''f'' [] (Some 0) ''''] 0 3 \<and>
   unlinked_by_rm \<lparr>heap = [Dir '''' [(''b'', 2)] None,
                           Dir ''a'' [] (Some 0),
                           Dir ''b'' [(''c'', 3)] (Some 0),
                           Dir ''c'' [] (Some 2),
                           File ''f'' [] (Some 0) ''''],
                   root = 0, current = 3\<rparr> ''../../b'' = Some 2 \<and>
   live [Dir '''' [(''b'', 2)] None,
         Dir ''a'' [] (Some 0),
         Dir ''b'' [(''c'', 3)] (Some 0),
         Dir ''c'' [] (Some 2),
         File ''f'' [] (Some 0) ''''] 2 3 \<and>
   exec \<lparr>heap = [Dir '''' [(''b'', 2)] None,
                 Dir ''a'' [] (Some 0),
                 Dir ''b'' [(''c'', 3)] (Some 0),
                 Dir ''c'' [] (Some 2),
                 File ''f'' [] (Some 0) ''''],
         root = 0, current = 3\<rparr> (Rm ''../../b'') =
     Returned (Some ''Removed: ../../b'')
       \<lparr>heap = [Dir '''' [] None,
                Dir ''a'' [] (Some 0),
                Dir ''b'' [(''c'', 3)] (Some 0),
                Dir ''c'' [] (Some 2),
                File ''f'' [] (Some 0) ''''],
        root = 0, current = 3\<rparr> \<and>
   \<not> live [Dir '''' [] None,
           Dir ''a'' [] (Some 0),
           Dir ''b'' [(''c'', 3)] (Some 0),
           Dir ''c'' [] (Some 2),
           File ''f'' [] (Some 0) ''''] 0 3"
proof -
  let ?S1 = "\<lparr>heap = [Dir '''' [] None, Dir ''a'' [] (Some 0)], root = 0, current = 0\<rparr>"
  let ?h = "[Dir '''' [(''b'', 2)] None,
             Dir ''a'' [] (Some 0),
             Dir ''b'' [(''c'', 3)] (Some 0),
             Dir ''c'' [] (Some 2),
             File ''f'' [] (Some 0) '''']"
  let ?S = "\<lparr>heap = ?h, root = 0, current = 3\<rparr>"
  let ?S' = "\<lparr>heap = [Dir '''' [] None,
                      Dir ''a'' [] (Some 0),
                      Dir ''b'' [(''c'', 3)] (Some 0),
                      Dir ''c'' [] (Some 2),
                      File ''f'' [] (Some 0) ''''],
              root = 0, current = 3\<rparr>"
  have r1: "run FileSystem_init [Mkdir ''a'', Cd ''a'', Rm ''../a'', Cd ''/''] =
     Some ([None, None, Some ''Removed: ../a'', None], ?S1)"
    by code_simp
  have r2: "run ?S1 [Mkdir ''b/c'', Touch ''f'', Rm ''f'', Cd ''b/c''] =
     Some ([None, created ''f'', Some ''Removed: f'', None], ?S)"
    by code_simp
  have l1: "live (heap ?S1) (root ?S1) (current ?S1)"
    by (simp add: live.live_root)
  let ?Sa = "\<lparr>heap = [Dir '''' [(''b'', 2)] None,
                      Dir ''a'' [] (Some 0),
                      Dir ''b'' [(''c'', 3)] (Some 0),
                      Dir ''c'' [] (Some 2)],
              root = 0, current = 0\<rparr>"
  let ?hb = "[Dir '''' [(''b'', 2), (''f'', 4)] None,
              Dir ''a'' [] (Some 0),
              Dir ''b'' [(''c'', 3)] (Some 0),
              Dir ''c'' [] (Some 2),
              File ''f'' [] (Some 0) '''']"
  let ?Sb = "\<lparr>heap = ?hb, root = 0, current = 0\<rparr>"
  let ?Sc = "\<lparr>heap = ?h, root = 0, current = 0\<rparr>"
  have e1: "exec ?S1 (Mkdir ''b/c'') = Returned None ?Sa" by code_simp
  have e2: "exec ?Sa (Touch ''f'') = Returned (created ''f'') ?Sb" by code_simp
  have e3: "exec ?Sb (Rm ''f'') = Returned (Some ''Removed: f'') ?Sc" by code_simp
  have e4: "exec ?Sc (Cd ''b/c'') = Returned None ?S" by code_simp
  have u3: "unlinked_by_rm ?Sb ''f'' = Some 4" by code_simp
  have n3: "\<not> live ?hb 4 0" using live_from_leaf[of ?hb 4 0] by auto
  have sp: "cursor_spared ?S1 [Mkdir ''b/c'', Touch ''f'', Rm ''f'', Cd ''b/c'']"
    using n3 by (simp add: e1 e2 e3 e4 u3 del: exec.simps)
  have u: "unlinked_by_rm ?S ''../../b'' = Some 2"
    by code_simp
  have l2: "live (heap ?S) 2 (current ?S)"
    using live.live_child[of ?h 2 2 "''c''" 3] by (simp add: live.live_root)
  have ex: "exec ?S (Rm ''../../b'') = Returned (Some ''Removed: ../../b'') ?S'"
    by code_simp
  from cursor_is_directory_and_linked_unless_unlinked[OF r1 r2,
        of "''../../b''" 2 "Some ''Removed: ../../b''" ?S']
  have "\<not> is_file (heap ?S ! current ?S) \<and> live (heap ?S) (root ?S) (current ?S) \<and>
        \<not> live (heap ?S') (root ?S') (current ?S')"
    using l1 sp u l2 ex by blast
  then show ?thesis using r1 r2 l1 sp u l2 ex by simp
qed

text \<open>
  C6, as the claim states it, fails: \<open>rm\<close> unlinks the directory the cursor stands in
  and leaves the cursor on it. After \<open>mkdir a\<close>, \<open>cd a\<close>, \<open>rm ../a\<close> the root has no
  entry left and the cursor still refers to the node of \<open>a\<close>.
\<close>

theorem cursor_detached_by_rm:
  "run FileSystem_init [Mkdir ''a'', Cd ''a'', Rm ''../a''] =
     Some ([None, None, Some ''Removed: ../a''],
           \<lparr>heap = [Dir '''' [] None, Dir ''a'' [] (Some 0)], root = 0, current = 1\<rparr>) \<and>
   \<not> live [Dir '''' [] None, Dir ''a'' [] (Some 0)] 0 1"
proof -
  have r: "run FileSystem_init [Mkdir ''a'', Cd ''a'', Rm ''../a''] =
     Some ([None, None, Some ''Removed: ../a''],
           \<lparr>heap = [Dir '''' [] None, Dir ''a'' [] (Some 0)], root = 0, current = 1\<rparr>)"
    by code_simp
  have "\<not> live [Dir '''' [] None, Dir ''a'' [] (Some 0)] 0 1"
    using live_from_leaf[of "[Dir '''' [] None, Dir ''a'' [] (Some 0)]" 0 1] by auto
  then show ?thesis using r by simp
qed

subsection \<open>Listing a directory\<close>

lemma join_nonempty: "xs \<noteq> [] \<Longrightarrow> [] \<notin> set xs \<Longrightarrow> join sep xs \<noteq> []"
  by (induction sep xs rule: join.induct) auto

lemma join_newline_free:
  assumes "CHR 0x0A \<notin> set (join [CHR 0x0A] xs)"
  shows "xs = [] \<or> (\<exists>x. xs = [x])"
proof (cases xs)
  case Nil
  then show ?thesis by simp
next
  case (Cons x ys)
  then show ?thesis using assms by (cases ys) auto
qed

lemma ls_contents_nonempty:
  assumes "wf_heap h" and "d < length h"
  shows "[] \<notin> set (ls_contents h d)"
proof
  assume "[] \<in> set (ls_contents h d)"
  then obtain nm c where mem: "(nm, c) \<in> set (children (h ! d))"
    and e: "(if \<not> is_file (h ! c) then nm @ ''/'' else nm) = []"
    by (auto simp: ls_contents_def)
  then have nm: "nm = []" by (simp split: if_splits)
  obtain c' where "map_of (children (h ! d)) nm = Some c'"
    using mem weak_map_of_SomeI by fastforce
  then show False using wf_heapD_key[OF assms, of nm c'] nm by simp
qed

text \<open>When does the listing of a directory with children read \<open>Empty directory\<close>?\<close>

lemma listing_reads_empty:
  "join [CHR 0x0A] (sort (ls_contents h d)) = ''Empty directory'' \<longleftrightarrow>
     (\<exists>c. children (h ! d) = [(''Empty directory'', c)] \<and> is_file (h ! c))"
proof
  assume r: "\<exists>c. children (h ! d) = [(''Empty directory'', c)] \<and> is_file (h ! c)"
  then show "join [CHR 0x0A] (sort (ls_contents h d)) = ''Empty directory''"
    by (auto simp: ls_contents_def)
next
  assume l: "join [CHR 0x0A] (sort (ls_contents h d)) = ''Empty directory''"
  then have "CHR 0x0A \<notin> set (join [CHR 0x0A] (sort (ls_contents h d)))" by simp
  then have "sort (ls_contents h d) = [] \<or> (\<exists>x. sort (ls_contents h d) = [x])"
    by (rule join_newline_free)
  then obtain x where one: "sort (ls_contents h d) = [x]" using l by auto
  have "length (sort (ls_contents h d)) = length (children (h ! d))"
    by (simp add: ls_contents_def)
  then have "length (children (h ! d)) = Suc 0"
    using one by simp
  then obtain nm c where ch: "children (h ! d) = [(nm, c)]"
    by (cases "children (h ! d)") auto
  then have disp: "(if \<not> is_file (h ! c) then nm @ ''/'' else nm) = ''Empty directory''"
    using l by (simp add: ls_contents_def)
  have isf: "is_file (h ! c)"
  proof (rule ccontr)
    assume "\<not> is_file (h ! c)"
    then have "nm @ ''/'' = ''Empty directory''" using disp by simp
    then have "last (nm @ ''/'') = last ''Empty directory''" by (rule arg_cong)
    then show False by simp
  qed
  then have "nm = ''Empty directory''" using disp by simp
  then show "\<exists>c. children (h ! d) = [(''Empty directory'', c)] \<and> is_file (h ! c)"
    using ch isf by simp
qed

text \<open>
  C7, as the code has it. \<open>ls\<close> on a directory prints the display strings of its
  children (the name, with a slash appended when the child is a directory), one per
  line, sorted lexicographically as display strings; a directory without children
  prints \<open>Empty directory\<close>. That text is not distinct from every listing: a directory
  prints it exactly when it has no children or when its only child is a file named
  \<open>Empty directory\<close>.
\<close>

theorem ls_lists_sorted_display_strings:
  assumes "run FileSystem_init cs = Some (outs, s)"
    and "(if parse_path path \<noteq> [] then traverse s (parse_path path) else Some (current s))
           = Some d"
    and "\<not> is_file (heap s ! d)"
  shows "(\<exists>lines. sorted lines \<and>
           mset lines =
             mset (map (\<lambda>(nm, c). if is_file (heap s ! c) then nm else nm @ ''/'')
                     (children (heap s ! d))) \<and>
           ls s path =
             (if children (heap s ! d) = [] then ''Empty directory''
              else join [CHR 0x0A] lines)) \<and>
         (ls s path = ''Empty directory'' \<longleftrightarrow>
            children (heap s ! d) = [] \<or>
            (\<exists>c. children (heap s ! d) = [(''Empty directory'', c)] \<and> is_file (heap s ! c)))"
proof -
  have con: "consistent s" using session_consistent[OF assms(1)] .
  have d: "d < length (heap s)"
  proof (cases "parse_path path = []")
    case True
    then show ?thesis using assms(2) con by (auto simp: consistent_def)
  next
    case False
    then show ?thesis using assms(2) traverse_in_range[OF con] by auto
  qed
  let ?lines = "sort (ls_contents (heap s) d)"
  have same: "ls_contents (heap s) d =
      map (\<lambda>(nm, c). if is_file (heap s ! c) then nm else nm @ ''/'') (children (heap s ! d))"
    by (auto simp: ls_contents_def)
  have out: "ls s path =
      (if join [CHR 0x0A] ?lines = [] then ''Empty directory'' else join [CHR 0x0A] ?lines)"
    using assms(2,3) by (simp add: ls_def Let_def)
  have "join [CHR 0x0A] ?lines \<noteq> []" if "children (heap s ! d) \<noteq> []"
  proof -
    have "?lines \<noteq> []" using that by (auto simp: ls_contents_def dest: arg_cong[where f = length])
    moreover have "[] \<notin> set ?lines"
      using ls_contents_nonempty[of "heap s" d] con d by (simp add: consistent_def)
    ultimately show ?thesis by (rule join_nonempty)
  qed
  moreover have "join [CHR 0x0A] ?lines = []" if "children (heap s ! d) = []"
    using that by (simp add: ls_contents_def)
  ultimately have printed: "ls s path =
      (if children (heap s ! d) = [] then ''Empty directory'' else join [CHR 0x0A] ?lines)"
    using out by auto
  moreover have "sorted ?lines" by simp
  moreover have "mset ?lines =
      mset (map (\<lambda>(nm, c). if is_file (heap s ! c) then nm else nm @ ''/'')
              (children (heap s ! d)))"
    using same by simp
  ultimately have listing: "\<exists>lines. sorted lines \<and>
           mset lines =
             mset (map (\<lambda>(nm, c). if is_file (heap s ! c) then nm else nm @ ''/'')
                     (children (heap s ! d))) \<and>
           ls s path =
             (if children (heap s ! d) = [] then ''Empty directory''
              else join [CHR 0x0A] lines)"
    by blast
  have "ls s path = ''Empty directory'' \<longleftrightarrow>
            children (heap s ! d) = [] \<or>
            (\<exists>c. children (heap s ! d) = [(''Empty directory'', c)] \<and> is_file (heap s ! c))"
  proof (cases "children (heap s ! d) = []")
    case True
    then show ?thesis using printed by simp
  next
    case False
    then show ?thesis using printed listing_reads_empty[of "heap s" d] by simp
  qed
  then show ?thesis using listing by simp
qed

theorem ls_lists_sorted_display_strings_witness:
  "run FileSystem_init [Mkdir ''z'', Mkdir ''a'', Touch ''m''] =
     Some ([None, None, created ''m''],
           \<lparr>heap = [Dir '''' [(''z'', 1), (''a'', 2), (''m'', 3)] None,
                    Dir ''z'' [] (Some 0),
                    Dir ''a'' [] (Some 0),
                    File ''m'' [] (Some 0) ''''],
            root = 0, current = 0\<rparr>) \<and>
   (\<exists>lines. sorted lines \<and> mset lines = mset [''z/'', ''a/'', ''m''] \<and>
      ls \<lparr>heap = [Dir '''' [(''z'', 1), (''a'', 2), (''m'', 3)] None,
                  Dir ''z'' [] (Some 0),
                  Dir ''a'' [] (Some 0),
                  File ''m'' [] (Some 0) ''''],
          root = 0, current = 0\<rparr> '''' = join [CHR 0x0A] lines) \<and>
   ls \<lparr>heap = [Dir '''' [(''z'', 1), (''a'', 2), (''m'', 3)] None,
               Dir ''z'' [] (Some 0),
               Dir ''a'' [] (Some 0),
               File ''m'' [] (Some 0) ''''],
       root = 0, current = 0\<rparr> '''' = ''a/'' @ [CHR 0x0A] @ ''m'' @ [CHR 0x0A] @ ''z/'' \<and>
   ls \<lparr>heap = [Dir '''' [(''z'', 1), (''a'', 2), (''m'', 3)] None,
               Dir ''z'' [] (Some 0),
               Dir ''a'' [] (Some 0),
               File ''m'' [] (Some 0) ''''],
       root = 0, current = 0\<rparr> '''' \<noteq> ''Empty directory''"
proof -
  let ?S = "\<lparr>heap = [Dir '''' [(''z'', 1), (''a'', 2), (''m'', 3)] None,
                    Dir ''z'' [] (Some 0),
                    Dir ''a'' [] (Some 0),
                    File ''m'' [] (Some 0) ''''],
            root = 0, current = 0\<rparr>"
  have r: "run FileSystem_init [Mkdir ''z'', Mkdir ''a'', Touch ''m''] =
     Some ([None, None, created ''m''], ?S)"
    by code_simp
  have t: "(if parse_path '''' \<noteq> [] then traverse ?S (parse_path '''') else Some (current ?S))
             = Some 0"
    by (simp add: parse_path_def)
  have f: "\<not> is_file (heap ?S ! 0)" by simp
  have l: "ls ?S '''' = ''a/'' @ [CHR 0x0A] @ ''m'' @ [CHR 0x0A] @ ''z/''"
    by code_simp
  note th = ls_lists_sorted_display_strings[OF r t f]
  have lines: "\<exists>lines. sorted lines \<and> mset lines = mset [''z/'', ''a/'', ''m''] \<and>
                 ls ?S '''' = join [CHR 0x0A] lines"
    using th[THEN conjunct1] by simp
  have "ls ?S '''' \<noteq> ''Empty directory''"
    using th[THEN conjunct2] by simp
  then show ?thesis using r l lines by simp
qed

text \<open>
  C7, as the claim states it, fails in two ways. The lines are not in the order of the
  names: with a directory \<open>a\<close> and a file \<open>a.txt\<close> the name \<open>a\<close> comes first, but
  \<open>ls\<close> sorts \<open>a/\<close> and \<open>a.txt\<close>, and the dot is smaller than the slash. And the text
  printed for an empty directory is not distinct: a directory that holds one file named
  \<open>Empty directory\<close> prints the same line as the empty root of a fresh tree.
\<close>

theorem ls_not_in_name_order_nor_distinct:
  "run FileSystem_init [Mkdir ''a'', Touch ''a.txt''] =
     Some ([None, created ''a.txt''],
           \<lparr>heap = [Dir '''' [(''a'', 1), (''a.txt'', 2)] None,
                    Dir ''a'' [] (Some 0),
                    File ''a.txt'' [] (Some 0) ''''],
            root = 0, current = 0\<rparr>) \<and>
   ls \<lparr>heap = [Dir '''' [(''a'', 1), (''a.txt'', 2)] None,
               Dir ''a'' [] (Some 0),
               File ''a.txt'' [] (Some 0) ''''],
       root = 0, current = 0\<rparr> '''' = ''a.txt'' @ [CHR 0x0A] @ ''a/'' \<and>
   ls_by_name [Dir '''' [(''a'', 1), (''a.txt'', 2)] None,
               Dir ''a'' [] (Some 0),
               File ''a.txt'' [] (Some 0) ''''] 0 = [''a/'', ''a.txt''] \<and>
   ls \<lparr>heap = [Dir '''' [(''a'', 1), (''a.txt'', 2)] None,
               Dir ''a'' [] (Some 0),
               File ''a.txt'' [] (Some 0) ''''],
       root = 0, current = 0\<rparr> '''' \<noteq>
     join [CHR 0x0A]
       (ls_by_name [Dir '''' [(''a'', 1), (''a.txt'', 2)] None,
                    Dir ''a'' [] (Some 0),
                    File ''a.txt'' [] (Some 0) ''''] 0) \<and>
   run FileSystem_init [Touch ''Empty directory''] =
     Some ([created ''Empty directory''],
           \<lparr>heap = [Dir '''' [(''Empty directory'', 1)] None,
                    File ''Empty directory'' [] (Some 0) ''''],
            root = 0, current = 0\<rparr>) \<and>
   ls \<lparr>heap = [Dir '''' [(''Empty directory'', 1)] None,
               File ''Empty directory'' [] (Some 0) ''''],
       root = 0, current = 0\<rparr> '''' = ''Empty directory'' \<and>
   ls FileSystem_init '''' = ''Empty directory''"
  by code_simp

subsection \<open>Writing and reading a file\<close>

lemma set_content_fields:
  "name (set_content h a t ! x) = name (h ! x) \<and>
   is_file (set_content h a t ! x) = is_file (h ! x) \<and>
   children (set_content h a t ! x) = children (h ! x) \<and>
   parent (set_content h a t ! x) = parent (h ! x)"
proof (cases "x = a \<and> a < length h")
  case True
  then show ?thesis by (simp add: set_content_def)
next
  case False
  then have "set_content h a t ! x = h ! x"
    by (cases "x = a") (simp_all add: set_content_def list_update_beyond)
  then show ?thesis by simp
qed

text \<open>Replacing a content changes no resolution.\<close>

lemma traverse_loop_set_content:
  "traverse_loop (set_content h a t) comps x cs = traverse_loop h comps x cs"
  by (induction cs arbitrary: x) (simp_all add: set_content_fields split: option.splits)

lemma traverse_set_content:
  "traverse (s\<lparr>heap := set_content (heap s) a t\<rparr>) cs = traverse s cs"
  by (simp add: traverse_def anchor_def traverse_loop_set_content)

lemma write_then_cat:
  assumes "traverse s (parse_path p) = Some f" and "is_file (heap s ! f)"
    and "f < length (heap s)"
  shows "write_file s p t = (''Written to '' @ p, s\<lparr>heap := set_content (heap s) f t\<rparr>) \<and>
         cat (s\<lparr>heap := set_content (heap s) f t\<rparr>) p = t"
proof -
  have "content (set_content (heap s) f t ! f) = t"
    using assms(3) by (simp add: nth_set_content)
  then show ?thesis
    using assms(1,2) set_content_fields[of "heap s" f t f]
    by (simp add: write_file_def cat_def traverse_set_content)
qed

lemma parse_path_f_txt: "parse_path ''f.txt'' = [''f.txt'']"
  by code_simp

lemma traverse_single:
  "\<not> is_dot k \<Longrightarrow> k \<noteq> [] \<Longrightarrow> traverse s [k] = map_of (children (heap s ! current s)) k"
  by (simp add: traverse_def anchor_def is_dot_def split: option.splits)

text \<open>
  C9, as the code has it. In every state a session can reach (the cursor is a directory
  there) in which the cursor has no child directory named \<open>f.txt\<close>, the commands
  \<open>touch f.txt\<close>, \<open>write f.txt t\<close>, \<open>cat f.txt\<close> all return, the write reports success
  and \<open>cat\<close> prints exactly the text \<open>t\<close>, for \<open>hello\<close> and for every other text.
\<close>

theorem touch_write_cat_round_trip:
  assumes "run FileSystem_init cs = Some (outs, s)"
    and "\<forall>c. map_of (children (heap s ! current s)) ''f.txt'' = Some c \<longrightarrow>
               is_file (heap s ! c)"
  shows "\<exists>out1 s1 s2.
           exec s (Touch ''f.txt'') = Returned out1 s1 \<and>
           exec s1 (Write ''f.txt'' t) = Returned (Some ''Written to f.txt'') s2 \<and>
           exec s2 (Cat ''f.txt'') = Returned (Some t) s2"
proof -
  have con: "consistent s" using session_consistent[OF assms(1)] .
  have wf: "wf_heap (heap s)" and cur: "current s < length (heap s)"
    and dir: "\<not> is_file (heap s ! current s)"
    using con by (simp_all add: consistent_def)
  have nd: "\<not> is_dot ''f.txt''" "''f.txt'' \<noteq> []" by (simp_all add: is_dot_def)
  have "\<exists>out1 s1 f. touch s ''f.txt'' = (out1, s1) \<and>
          traverse s1 (parse_path ''f.txt'') = Some f \<and> is_file (heap s1 ! f) \<and>
          f < length (heap s1)"
  proof (cases "map_of (children (heap s ! current s)) ''f.txt''")
    case None
    let ?n = "length (heap s)"
    let ?h2 = "set_child (heap s @ [TrieNode_init ''f.txt'' True (Some (current s))])
                 (current s) ''f.txt'' ?n"
    have t: "touch s ''f.txt'' = (''File '' @ [CHR 0x27] @ ''f.txt'' @ [CHR 0x27] @ '' created'',
                               s\<lparr>heap := ?h2\<rparr>)"
      using None dir by (simp add: touch_def parse_path_f_txt traverse_Nil Let_def)
    have "traverse (s\<lparr>heap := ?h2\<rparr>) [''f.txt''] = Some ?n"
      using traverse_single[OF nd, of "s\<lparr>heap := ?h2\<rparr>"] link_lookup[OF cur] by simp
    moreover have "is_file (?h2 ! ?n)"
      using link_new[OF cur] by (simp add: TrieNode_init_def)
    ultimately show ?thesis using t by (simp add: parse_path_f_txt)
  next
    case (Some c)
    have t: "snd (touch s ''f.txt'') = s"
      using Some dir by (simp add: touch_def parse_path_f_txt traverse_Nil Let_def)
    have "traverse s [''f.txt''] = Some c"
      using traverse_single[OF nd, of s] Some by simp
    moreover have "is_file (heap s ! c)" using assms(2) Some by simp
    moreover have "c < length (heap s)" using wf_heapD_child[OF wf cur Some] by simp
    ultimately show ?thesis
      using t by (cases "touch s ''f.txt''") (auto simp: parse_path_f_txt)
  qed
  then obtain out1 s1 f where t: "touch s ''f.txt'' = (out1, s1)"
    and f: "traverse s1 (parse_path ''f.txt'') = Some f" "is_file (heap s1 ! f)"
      "f < length (heap s1)"
    by blast
  let ?s2 = "s1\<lparr>heap := set_content (heap s1) f t\<rparr>"
  have "write_file s1 ''f.txt'' t = (''Written to '' @ ''f.txt'', ?s2) \<and> cat ?s2 ''f.txt'' = t"
    using write_then_cat[OF f] .
  then have "exec s (Touch ''f.txt'') = Returned (Some out1) s1 \<and>
             exec s1 (Write ''f.txt'' t) = Returned (Some ''Written to f.txt'') ?s2 \<and>
             exec ?s2 (Cat ''f.txt'') = Returned (Some t) ?s2"
    using t by simp
  then show ?thesis by blast
qed

theorem touch_write_cat_round_trip_witness:
  "run FileSystem_init [Mkdir ''d'', Cd ''d''] =
     Some ([None, None],
           \<lparr>heap = [Dir '''' [(''d'', 1)] None, Dir ''d'' [] (Some 0)],
            root = 0, current = 1\<rparr>) \<and>
   map_of (children ([Dir '''' [(''d'', 1)] None, Dir ''d'' [] (Some 0)] ! 1)) ''f.txt'' = None \<and>
   (\<exists>out1 s1 s2.
      exec \<lparr>heap = [Dir '''' [(''d'', 1)] None, Dir ''d'' [] (Some 0)],
            root = 0, current = 1\<rparr> (Touch ''f.txt'') = Returned out1 s1 \<and>
      exec s1 (Write ''f.txt'' ''hello'') = Returned (Some ''Written to f.txt'') s2 \<and>
      exec s2 (Cat ''f.txt'') = Returned (Some ''hello'') s2)"
proof -
  let ?S = "\<lparr>heap = [Dir '''' [(''d'', 1)] None, Dir ''d'' [] (Some 0)],
            root = 0, current = 1\<rparr>"
  have r: "run FileSystem_init [Mkdir ''d'', Cd ''d''] = Some ([None, None], ?S)"
    by code_simp
  have h: "\<forall>c. map_of (children (heap ?S ! current ?S)) ''f.txt'' = Some c \<longrightarrow>
                 is_file (heap ?S ! c)"
    by simp
  show ?thesis
    using r touch_write_cat_round_trip[OF r h, of "''hello''"] by simp
qed

text \<open>
  C9, as the claim states it, fails where the cursor is a directory that already has a
  child directory named \<open>f.txt\<close>: \<open>touch\<close> reports that the name exists, the write finds
  no file and \<open>cat\<close> prints a failure message instead of \<open>hello\<close>.
\<close>

theorem round_trip_fails_on_directory_name:
  "map_option fst
     (run FileSystem_init
        [Mkdir ''f.txt'', Touch ''f.txt'', Write ''f.txt'' ''hello'', Cat ''f.txt'']) =
     Some [None,
           Some (''File '' @ [CHR 0x27] @ ''f.txt'' @ [CHR 0x27] @ '' already exists''),
           Some ''File not found: f.txt'',
           Some ''File not found: f.txt'']"
  by code_simp

subsection \<open>Files named like navigation components\<close>

text \<open>
  C10. \<open>touch\<close> treats a last component \<open>..\<close> or \<open>.\<close> as a name: when the rest of the
  path resolves to a directory without such an entry, it reports success and links a
  new file with that name. In every state a session can reach, no resolution returns a
  node with one of these two names, whatever the component list.
\<close>

theorem dot_names_created_never_resolved:
  assumes "run FileSystem_init cs = Some (outs, s)"
  shows "(traverse s comps = Some t \<longrightarrow> name (heap s ! t) \<notin> {''..'', ''.''}) \<and>
         (parse_path path \<noteq> [] \<and> last (parse_path path) \<in> {''..'', ''.''} \<and>
          traverse s (butlast (parse_path path)) = Some d \<and> \<not> is_file (heap s ! d) \<and>
          map_of (children (heap s ! d)) (last (parse_path path)) = None \<longrightarrow>
            (\<exists>s'. touch s path =
                     (''File '' @ [CHR 0x27] @ last (parse_path path) @ [CHR 0x27] @ '' created'',
                      s') \<and>
                   map_of (children (heap s' ! d)) (last (parse_path path)) =
                     Some (length (heap s)) \<and>
                   heap s' ! length (heap s) =
                     File (last (parse_path path)) [] (Some d) ''''))"
proof -
  have con: "consistent s" using session_consistent[OF assms] .
  have first: "traverse s comps = Some t \<longrightarrow> name (heap s ! t) \<notin> {''..'', ''.''}"
    using traverse_in_range[OF con, of comps t] by (auto simp: is_dot_def)
  have second: "\<exists>s'. touch s path =
                     (''File '' @ [CHR 0x27] @ last (parse_path path) @ [CHR 0x27] @ '' created'',
                      s') \<and>
                   map_of (children (heap s' ! d)) (last (parse_path path)) =
                     Some (length (heap s)) \<and>
                   heap s' ! length (heap s) =
                     File (last (parse_path path)) [] (Some d) ''''"
    if ne: "parse_path path \<noteq> []"
      and tr: "traverse s (butlast (parse_path path)) = Some d"
      and dir: "\<not> is_file (heap s ! d)"
      and fresh: "map_of (children (heap s ! d)) (last (parse_path path)) = None"
  proof -
    let ?k = "last (parse_path path)"
    let ?h2 = "set_child (heap s @ [TrieNode_init ?k True (Some d)]) d ?k (length (heap s))"
    have d: "d < length (heap s)" using traverse_in_range[OF con tr] by simp
    have "touch s path = (''File '' @ [CHR 0x27] @ ?k @ [CHR 0x27] @ '' created'',
                          s\<lparr>heap := ?h2\<rparr>)"
      using ne tr dir fresh by (simp add: touch_def Let_def)
    moreover have "map_of (children (?h2 ! d)) ?k = Some (length (heap s))"
      using link_lookup[OF d] .
    moreover have "?h2 ! length (heap s) = File ?k [] (Some d) ''''"
      using link_new[OF d] by (simp add: TrieNode_init_def)
    ultimately show ?thesis by simp
  qed
  show ?thesis using first second by blast
qed

theorem dot_names_created_never_resolved_witness:
  "run FileSystem_init [Mkdir ''a'', Touch ''a/.''] =
     Some ([None, created ''.''],
           \<lparr>heap = [Dir '''' [(''a'', 1)] None,
                    Dir ''a'' [(''.'', 2)] (Some 0),
                    File ''.'' [] (Some 1) ''''],
            root = 0, current = 0\<rparr>) \<and>
   traverse \<lparr>heap = [Dir '''' [(''a'', 1)] None,
                     Dir ''a'' [(''.'', 2)] (Some 0),
                     File ''.'' [] (Some 1) ''''],
             root = 0, current = 0\<rparr> [''a'', ''.''] = Some 1 \<and>
   parse_path ''a/..'' = [''a'', ''..''] \<and>
   touch \<lparr>heap = [Dir '''' [(''a'', 1)] None,
                  Dir ''a'' [(''.'', 2)] (Some 0),
                  File ''.'' [] (Some 1) ''''],
          root = 0, current = 0\<rparr> ''a/..'' =
     (''File '' @ [CHR 0x27] @ ''..'' @ [CHR 0x27] @ '' created'',
      \<lparr>heap = [Dir '''' [(''a'', 1)] None,
               Dir ''a'' [(''.'', 2), (''..'', 3)] (Some 0),
               File ''.'' [] (Some 1) '''',
               File ''..'' [] (Some 1) ''''],
       root = 0, current = 0\<rparr>)"
proof -
  let ?S = "\<lparr>heap = [Dir '''' [(''a'', 1)] None,
                    Dir ''a'' [(''.'', 2)] (Some 0),
                    File ''.'' [] (Some 1) ''''],
            root = 0, current = 0\<rparr>"
  have r: "run FileSystem_init [Mkdir ''a'', Touch ''a/.''] = Some ([None, created ''.''], ?S)"
    by code_simp
  have p: "parse_path ''a/..'' = [''a'', ''..'']" by code_simp
  have t: "traverse ?S [''a'', ''.''] = Some 1" by code_simp
  have t2: "traverse ?S [''a''] = Some 1" by code_simp
  have tc: "touch ?S ''a/..'' =
     (''File '' @ [CHR 0x27] @ ''..'' @ [CHR 0x27] @ '' created'',
      \<lparr>heap = [Dir '''' [(''a'', 1)] None,
               Dir ''a'' [(''.'', 2), (''..'', 3)] (Some 0),
               File ''.'' [] (Some 1) '''',
               File ''..'' [] (Some 1) ''''],
       root = 0, current = 0\<rparr>)"
    by code_simp
  have "name (heap ?S ! 1) \<notin> {''..'', ''.''}"
    using dot_names_created_never_resolved[OF r, of "[''a'', ''.'']" 1 "''a/..''" 1] t by simp
  then show ?thesis using r p t tc by simp
qed

end
